theory Spec2Isabelle
  imports Main "HOL-Library.Multiset"
begin

section \<open>CPU scheduling simulation: data model\<close>

text \<open>
  The C program simulates four scheduling disciplines over an array of \<open>Process\<close> structs
  (\<^verbatim>\<open>common.h\<close>). A C \<^verbatim>\<open>int\<close> is a 32-bit two's-complement number. The fields of a
  process are integers, and every addition and subtraction that the code performs on
  \<^verbatim>\<open>int\<close> values is followed by \<open>wrap_int\<close>, which reduces the exact result to the 32-bit
  range: a sum beyond \<open>INT_MAX\<close> comes out negative, as it does in the compiled program
  (the C standard itself leaves signed overflow undefined).
  An array of processes is a list, indexed from 0; the parameter \<^verbatim>\<open>n\<close> of the C functions
  is the length of that list. Allocation (\<^verbatim>\<open>malloc\<close>, \<^verbatim>\<open>calloc\<close>) is taken to succeed, with
  the one exception of a request of negative size (see \<open>rr_schedule\<close>).
\<close>

definition INT_MAX :: int where
  "INT_MAX = 2147483647"

definition wrap_int :: "int \<Rightarrow> int" where
  "wrap_int x = (x + 2147483648) mod 4294967296 - 2147483648"

record Process =
  id' :: string
  arrival_time :: int
  burst_time :: int
  priority :: int
  remaining_time :: int
  completion_time :: int
  turnaround_time :: int
  waiting_time :: int
  response_time :: int
  started :: bool

text \<open>
  The averages of \<^verbatim>\<open>Metrics\<close> are C floats. Float arithmetic is not interpreted: a value
  of type \<open>cfloat\<close> is the expression that the code evaluates in float arithmetic,
  operation by operation and in the order of the code, so no rounding is assumed away.
  \<open>FZero\<close> is the constant \<^verbatim>\<open>0\<close> that the totals start from, \<open>FInt\<close> the conversion of an
  \<^verbatim>\<open>int\<close> to \<^verbatim>\<open>float\<close>, \<open>FAdd\<close> and \<open>FDiv\<close> the float addition and division.
\<close>

datatype cfloat = FZero | FInt int | FAdd cfloat cfloat | FDiv cfloat cfloat

record Metrics =
  avg_turnaround_time :: cfloat
  avg_waiting_time :: cfloat
  avg_response_time :: cfloat

text \<open>The record as \<^verbatim>\<open>read_processes\<close> initialises it from one CSV row.\<close>

definition new_process :: "string \<Rightarrow> int \<Rightarrow> int \<Rightarrow> int \<Rightarrow> Process" where
  "new_process i a b pr =
     \<lparr>id' = i, arrival_time = a, burst_time = b, priority = pr,
      remaining_time = b, completion_time = 0, turnaround_time = 0,
      waiting_time = 0, response_time = - 1, started = False\<rparr>"

text \<open>The fields that no scheduler is meant to write.\<close>

definition static_fields :: "Process \<Rightarrow> string \<times> int \<times> int \<times> int" where
  "static_fields p = (id' p, arrival_time p, burst_time p, priority p)"

text \<open>
  A well-formed process, as the loader hands it to a scheduler: non-negative arrival,
  positive burst, both values of type \<^verbatim>\<open>int\<close>, and the countdown \<open>remaining_time\<close> still
  equal to the burst.
\<close>

definition well_formed :: "Process \<Rightarrow> bool" where
  "well_formed p \<longleftrightarrow>
     0 \<le> arrival_time p \<and> arrival_time p \<le> INT_MAX \<and>
     0 < burst_time p \<and> burst_time p \<le> INT_MAX \<and> remaining_time p = burst_time p"

section \<open>Sorting by arrival time\<close>

definition compare_arrival_time :: "Process \<Rightarrow> Process \<Rightarrow> int" where
  "compare_arrival_time p1 p2 = wrap_int (arrival_time p1 - arrival_time p2)"

text \<open>
  Every scheduler first calls the C library's \<^verbatim>\<open>qsort\<close> with \<open>compare_arrival_time\<close>. The
  library function is not part of the program, and C leaves the order of elements that
  compare equal open. The schedulers therefore take the sorting function as a parameter
  \<open>srt\<close>, and \<open>qsort_post srt ps\<close> says what C guarantees of its result on the array \<open>ps\<close>:
  a permutation that is ordered by the comparison function.
\<close>

definition qsort_post :: "(Process list \<Rightarrow> Process list) \<Rightarrow> Process list \<Rightarrow> bool" where
  "qsort_post srt ps \<longleftrightarrow>
     mset (srt ps) = mset ps \<and>
     sorted_wrt (\<lambda>a b. compare_arrival_time a b \<le> 0) (srt ps)"

section \<open>Metrics (\<^verbatim>\<open>common.c\<close>)\<close>

text \<open>
  A total of \<^verbatim>\<open>calculate_metrics\<close>: a float that starts at 0 and to which the loop adds the
  \<^verbatim>\<open>int\<close> values of one field, in array order.
\<close>

definition float_total :: "int list \<Rightarrow> cfloat" where
  "float_total xs = foldl (\<lambda>total x. FAdd total (FInt x)) FZero xs"

text \<open>One iteration of the loop of \<^verbatim>\<open>calculate_metrics\<close> writes two fields of \<open>processes[i]\<close>.\<close>

definition set_derived_times :: "Process \<Rightarrow> Process" where
  "set_derived_times p =
     (let p1 = p\<lparr>turnaround_time := wrap_int (completion_time p - arrival_time p)\<rparr>
      in p1\<lparr>waiting_time := wrap_int (turnaround_time p1 - burst_time p1)\<rparr>)"

text \<open>
  \<^verbatim>\<open>calculate_metrics\<close> returns the aggregate and leaves the array updated in place; the
  model returns both. Each average is its total divided by \<^verbatim>\<open>n\<close>, converted to float.
\<close>

definition calculate_metrics :: "Process list \<Rightarrow> Metrics \<times> Process list" where
  "calculate_metrics processes =
     (let qs = map set_derived_times processes;
          n = length processes
      in (\<lparr>avg_turnaround_time = FDiv (float_total (map turnaround_time qs)) (FInt (int n)),
           avg_waiting_time = FDiv (float_total (map waiting_time qs)) (FInt (int n)),
           avg_response_time = FDiv (float_total (map response_time qs)) (FInt (int n))\<rparr>, qs))"

section \<open>First come, first served (\<^verbatim>\<open>fcfs.c\<close>)\<close>

text \<open>
  The loop of \<^verbatim>\<open>fcfs_schedule\<close> visits the sorted array once from left to right, reading and
  writing only the element it is at; \<open>fcfs_loop t\<close> is that loop from the current element
  on, started at \<open>current_time = t\<close>.
\<close>

fun fcfs_loop :: "int \<Rightarrow> Process list \<Rightarrow> Process list" where
  "fcfs_loop current_time [] = []"
| "fcfs_loop current_time (p # ps) =
     (let t = (if current_time < arrival_time p then arrival_time p else current_time);
          p1 = p\<lparr>response_time := wrap_int (t - arrival_time p), started := True\<rparr>;
          t' = wrap_int (t + burst_time p1);
          p2 = p1\<lparr>completion_time := t', remaining_time := 0\<rparr>
      in p2 # fcfs_loop t' ps)"

definition fcfs_schedule :: "(Process list \<Rightarrow> Process list) \<Rightarrow> Process list \<Rightarrow> Metrics \<times> Process list" where
  "fcfs_schedule srt processes = calculate_metrics (fcfs_loop 0 (srt processes))"

section \<open>Loops that may not terminate\<close>

text \<open>
  The \<^verbatim>\<open>while\<close> loops of \<^verbatim>\<open>sjf.c\<close> and \<^verbatim>\<open>rr.c\<close> run until a counter reaches \<open>n\<close>; nothing in
  their form bounds the number of iterations. \<open>while_loop b c s\<close> runs the body \<open>c\<close> from
  the state \<open>s\<close> as long as the condition \<open>b\<close> holds. The body says how the iteration ended:
  \<open>Continue\<close> (the end of the body, or \<^verbatim>\<open>continue\<close>) or \<open>Break\<close>. The value \<open>None\<close> stands
  for a loop that never ends.
\<close>

datatype 's ctl = Continue 's | Break 's

partial_function (option) while_loop :: "('s \<Rightarrow> bool) \<Rightarrow> ('s \<Rightarrow> 's ctl) \<Rightarrow> 's \<Rightarrow> 's option" where
  "while_loop b c s =
     (if b s then (case c s of Continue s' \<Rightarrow> while_loop b c s' | Break s' \<Rightarrow> Some s')
      else Some s)"

declare while_loop.simps [code]

section \<open>Shortest job first (\<^verbatim>\<open>sjf.c\<close>)\<close>

text \<open>The local variables of a scheduler: the array, the clock and the counter.\<close>

record sched_state =
  procs :: "Process list"
  current_time :: int
  completed :: nat

record sjf_state = sched_state +
  is_completed :: "bool list"

text \<open>
  The first \<^verbatim>\<open>for\<close> loop of both SJF functions looks for the smallest key among the
  processes that are not completed and have arrived, starting from index \<open>-1\<close> and the
  bound \<open>INT_MAX\<close>. The key is \<open>burst_time\<close> in the non-preemptive function and
  \<open>remaining_time\<close> in the preemptive one. The pair is
  (\<open>shortest_job_idx\<close>, \<open>shortest_burst\<close>).
\<close>

definition shortest_step :: "(Process \<Rightarrow> int) \<Rightarrow> Process list \<Rightarrow> bool list \<Rightarrow> int \<Rightarrow> nat \<Rightarrow> int \<times> int \<Rightarrow> int \<times> int" where
  "shortest_step key ps done t i acc =
     (if \<not> done ! i \<and> arrival_time (ps ! i) \<le> t \<and> key (ps ! i) < snd acc
      then (int i, key (ps ! i)) else acc)"

definition find_shortest :: "(Process \<Rightarrow> int) \<Rightarrow> Process list \<Rightarrow> bool list \<Rightarrow> int \<Rightarrow> int" where
  "find_shortest key ps done t =
     fst (fold (shortest_step key ps done t) [0..<length ps] (- 1, INT_MAX))"

text \<open>The second \<^verbatim>\<open>for\<close> loop: the earliest arrival among the processes not completed.\<close>

definition arrival_step :: "Process list \<Rightarrow> bool list \<Rightarrow> nat \<Rightarrow> int \<Rightarrow> int" where
  "arrival_step ps done i next_arrival_time =
     (if \<not> done ! i \<and> arrival_time (ps ! i) < next_arrival_time
      then arrival_time (ps ! i) else next_arrival_time)"

definition find_next_arrival :: "Process list \<Rightarrow> bool list \<Rightarrow> int" where
  "find_next_arrival ps done = fold (arrival_step ps done) [0..<length ps] INT_MAX"

text \<open>The body of the \<^verbatim>\<open>while\<close> loop of \<^verbatim>\<open>sjf_non_preemptive_schedule\<close>.\<close>

definition sjf_np_body :: "sjf_state \<Rightarrow> sjf_state ctl" where
  "sjf_np_body s =
     (let shortest_job_idx = find_shortest burst_time (procs s) (is_completed s) (current_time s)
      in if shortest_job_idx = - 1
         then Continue (s\<lparr>current_time := find_next_arrival (procs s) (is_completed s)\<rparr>)
         else
           (let i = nat shortest_job_idx;
                p = procs s ! i;
                p1 = p\<lparr>response_time := wrap_int (current_time s - arrival_time p),
                       started := True\<rparr>;
                t = wrap_int (current_time s + burst_time p1);
                p2 = p1\<lparr>completion_time := t, remaining_time := 0\<rparr>
            in Continue (s\<lparr>procs := (procs s)[i := p2], current_time := t,
                 completed := completed s + 1,
                 is_completed := (is_completed s)[i := True]\<rparr>)))"

definition sjf_init :: "Process list \<Rightarrow> sjf_state" where
  "sjf_init ps =
     \<lparr>procs = ps, current_time = 0, completed = 0, is_completed = replicate (length ps) False\<rparr>"

definition sjf_running :: "sjf_state \<Rightarrow> bool" where
  "sjf_running s \<longleftrightarrow> completed s < length (procs s)"

definition sjf_non_preemptive_schedule ::
    "(Process list \<Rightarrow> Process list) \<Rightarrow> Process list \<Rightarrow> (Metrics \<times> Process list) option" where
  "sjf_non_preemptive_schedule srt processes =
     (case while_loop sjf_running sjf_np_body (sjf_init (srt processes)) of
        None \<Rightarrow> None
      | Some s \<Rightarrow> Some (calculate_metrics (procs s)))"

text \<open>The body of the \<^verbatim>\<open>while\<close> loop of \<^verbatim>\<open>sjf_preemptive_schedule\<close>: one time unit.\<close>

definition sjf_p_body :: "sjf_state \<Rightarrow> sjf_state ctl" where
  "sjf_p_body s =
     (let shortest_job_idx = find_shortest remaining_time (procs s) (is_completed s) (current_time s)
      in if shortest_job_idx = - 1
         then Continue (s\<lparr>current_time := find_next_arrival (procs s) (is_completed s)\<rparr>)
         else
           (let i = nat shortest_job_idx;
                p = procs s ! i;
                p1 = (if \<not> started p
                      then p\<lparr>response_time := wrap_int (current_time s - arrival_time p),
                             started := True\<rparr>
                      else p);
                p2 = p1\<lparr>remaining_time := wrap_int (remaining_time p1 - 1)\<rparr>;
                t = wrap_int (current_time s + 1)
            in if remaining_time p2 = 0
               then Continue (s\<lparr>procs := (procs s)[i := p2\<lparr>completion_time := t\<rparr>],
                      current_time := t, completed := completed s + 1,
                      is_completed := (is_completed s)[i := True]\<rparr>)
               else Continue (s\<lparr>procs := (procs s)[i := p2], current_time := t\<rparr>)))"

definition sjf_preemptive_schedule ::
    "(Process list \<Rightarrow> Process list) \<Rightarrow> Process list \<Rightarrow> (Metrics \<times> Process list) option" where
  "sjf_preemptive_schedule srt processes =
     (case while_loop sjf_running sjf_p_body (sjf_init (srt processes)) of
        None \<Rightarrow> None
      | Some s \<Rightarrow> Some (calculate_metrics (procs s)))"

section \<open>Round robin (\<^verbatim>\<open>rr.c\<close>)\<close>

text \<open>
  The ready queue is a circular buffer of process indices. \<open>data\<close> is the \<^verbatim>\<open>malloc\<close>ed
  array (its initial contents are never read; the model fills it with 0), \<open>rear\<close>
  starts at \<open>-1\<close>.
\<close>

record Queue =
  data :: "nat list"
  capacity :: nat
  size' :: nat
  front :: nat
  rear :: int

definition create_queue :: "nat \<Rightarrow> Queue" where
  "create_queue cap = \<lparr>data = replicate cap 0, capacity = cap, size' = 0, front = 0, rear = - 1\<rparr>"

definition is_empty :: "Queue \<Rightarrow> bool" where
  "is_empty queue \<longleftrightarrow> size' queue = 0"

definition is_full :: "Queue \<Rightarrow> bool" where
  "is_full queue \<longleftrightarrow> size' queue = capacity queue"

text \<open>\<^verbatim>\<open>enqueue\<close> returns \<^verbatim>\<open>false\<close> and leaves a full queue as it is.\<close>

definition enqueue :: "Queue \<Rightarrow> nat \<Rightarrow> bool \<times> Queue" where
  "enqueue queue v =
     (if is_full queue then (False, queue)
      else
        (let r = (rear queue + 1) mod int (capacity queue)
         in (True, queue\<lparr>rear := r, data := (data queue)[nat r := v], size' := size' queue + 1\<rparr>)))"

text \<open>
  \<^verbatim>\<open>dequeue\<close> returns \<^verbatim>\<open>false\<close> on an empty queue and writes nothing through its pointer:
  the result \<open>None\<close>. Otherwise it yields the front element and the queue without it.
\<close>

definition dequeue :: "Queue \<Rightarrow> (nat \<times> Queue) option" where
  "dequeue queue =
     (if is_empty queue then None
      else Some (data queue ! front queue,
             queue\<lparr>front := (front queue + 1) mod capacity queue, size' := size' queue - 1\<rparr>))"

record rr_state = sched_state +
  ready_queue :: Queue
  next_arrival_idx :: nat

text \<open>
  The inner loop that appears twice in \<^verbatim>\<open>rr_schedule\<close>: enqueue the processes that have
  arrived by \<open>current_time\<close>, in array order, stopping at the first that has not. The
  result of \<^verbatim>\<open>enqueue\<close> is ignored, as in the code.
\<close>

function admit_arrivals :: "rr_state \<Rightarrow> rr_state" where
  "admit_arrivals s =
     (if next_arrival_idx s < length (procs s) \<and>
         arrival_time (procs s ! next_arrival_idx s) \<le> current_time s
      then admit_arrivals
             (s\<lparr>ready_queue := snd (enqueue (ready_queue s) (next_arrival_idx s)),
                next_arrival_idx := next_arrival_idx s + 1\<rparr>)
      else s)"
  by pat_completeness auto
termination
  by (relation "measure (\<lambda>s. length (procs s) - next_arrival_idx s)") auto

text \<open>
  The body of the \<^verbatim>\<open>while\<close> loop of \<^verbatim>\<open>rr_schedule\<close>. The array \<^verbatim>\<open>arrival_index\<close> of the C
  function is written once and never read; it is left out. The call of \<^verbatim>\<open>dequeue\<close> is
  guarded by the emptiness test before it, so its failure branch is never taken.
\<close>

definition rr_body :: "int \<Rightarrow> rr_state \<Rightarrow> rr_state ctl" where
  "rr_body time_quantum s =
     (let s1 = admit_arrivals s
      in if is_empty (ready_queue s1)
         then (if next_arrival_idx s1 < length (procs s1)
               then Continue (s1\<lparr>current_time := arrival_time (procs s1 ! next_arrival_idx s1)\<rparr>)
               else Break s1)
         else
           (case dequeue (ready_queue s1) of
              None \<Rightarrow> Break s1
            | Some (process_idx, q) \<Rightarrow>
                (let p = procs s1 ! process_idx;
                     p1 = (if \<not> started p
                           then p\<lparr>response_time := wrap_int (current_time s1 - arrival_time p),
                                  started := True\<rparr>
                           else p);
                     execution_time = (if remaining_time p1 < time_quantum
                                       then remaining_time p1 else time_quantum);
                     p2 = p1\<lparr>remaining_time := wrap_int (remaining_time p1 - execution_time)\<rparr>;
                     s2 = admit_arrivals
                            (s1\<lparr>procs := (procs s1)[process_idx := p2],
                                current_time := wrap_int (current_time s1 + execution_time),
                                ready_queue := q\<rparr>)
                 in if remaining_time p2 = 0
                    then Continue (s2\<lparr>procs := (procs s2)[process_idx := p2\<lparr>completion_time := current_time s2\<rparr>],
                           completed := completed s2 + 1\<rparr>)
                    else Continue (s2\<lparr>ready_queue := snd (enqueue (ready_queue s2) process_idx)\<rparr>))))"

text \<open>
  \<^verbatim>\<open>rr_schedule\<close> asks for a queue of capacity \<^verbatim>\<open>n * 100\<close>, a product of \<^verbatim>\<open>int\<close> values: beyond
  21474836 processes it wraps around.
\<close>

definition queue_capacity :: "Process list \<Rightarrow> int" where
  "queue_capacity ps = wrap_int (int (length ps) * 100)"

definition rr_init :: "Process list \<Rightarrow> rr_state" where
  "rr_init ps =
     \<lparr>procs = ps, current_time = 0, completed = 0,
      ready_queue = create_queue (nat (queue_capacity ps)), next_arrival_idx = 0\<rparr>"

definition rr_running :: "rr_state \<Rightarrow> bool" where
  "rr_running s \<longleftrightarrow> completed s < length (procs s)"

text \<open>The value \<^verbatim>\<open>Metrics empty = {0}\<close> that \<^verbatim>\<open>rr_schedule\<close> returns when \<^verbatim>\<open>create_queue\<close> fails.\<close>

definition empty_metrics :: Metrics where
  "empty_metrics =
     \<lparr>avg_turnaround_time = FZero, avg_waiting_time = FZero, avg_response_time = FZero\<rparr>"

text \<open>
  \<^verbatim>\<open>rr_schedule\<close> sorts the array and creates the queue. When the capacity has wrapped
  around to a negative number, \<^verbatim>\<open>create_queue\<close> passes \<^verbatim>\<open>capacity * sizeof(int)\<close>, converted
  to the unsigned \<^verbatim>\<open>size_t\<close>, to \<^verbatim>\<open>malloc\<close>: a size of more than \<open>2\<^sup>6\<^sup>4 - 2\<^sup>3\<^sup>4\<close> bytes (with
  a 64-bit \<^verbatim>\<open>size_t\<close>), which no allocator grants. \<^verbatim>\<open>create_queue\<close> then returns \<^verbatim>\<open>NULL\<close>, and
  \<^verbatim>\<open>rr_schedule\<close> returns the empty \<^verbatim>\<open>Metrics\<close> with the array sorted but not scheduled.
  Otherwise the loop runs, with a queue of the capacity computed.
\<close>

definition rr_schedule ::
    "(Process list \<Rightarrow> Process list) \<Rightarrow> Process list \<Rightarrow> int \<Rightarrow> (Metrics \<times> Process list) option" where
  "rr_schedule srt processes time_quantum =
     (let ps = srt processes
      in if queue_capacity ps < 0 then Some (empty_metrics, ps)
         else
           (case while_loop rr_running (rr_body time_quantum) (rr_init ps) of
              None \<Rightarrow> None
            | Some s \<Rightarrow> Some (calculate_metrics (procs s))))"

section \<open>The scenario of the specification\<close>

text \<open>P1 (arrival 0, burst 5), P2 (arrival 1, burst 3), P3 (arrival 2, burst 8), as loaded.\<close>

definition scenario :: "Process list" where
  "scenario = [new_process ''P1'' 0 5 1, new_process ''P2'' 1 3 1, new_process ''P3'' 2 8 1]"

text \<open>A completed process: P1 of the scenario after it ran alone from 0 to 5.\<close>

definition finished_P1 :: Process where
  "finished_P1 = (new_process ''P1'' 0 5 1)
     \<lparr>remaining_time := 0, completion_time := 5, response_time := 0, started := True\<rparr>"

text \<open>The fields that \<^verbatim>\<open>calculate_metrics\<close> does not write.\<close>

definition kept_fields :: "Process \<Rightarrow> string \<times> int \<times> int \<times> int \<times> int \<times> int \<times> int \<times> bool" where
  "kept_fields p =
     (id' p, arrival_time p, burst_time p, priority p, remaining_time p, completion_time p,
      response_time p, started p)"

section \<open>Notions used in the statements about SJF\<close>

text \<open>Process \<open>i\<close> can be selected at time \<open>t\<close>: it is not completed and has arrived.\<close>

definition eligible :: "Process list \<Rightarrow> bool list \<Rightarrow> int \<Rightarrow> nat \<Rightarrow> bool" where
  "eligible ps done t i \<longleftrightarrow> \<not> done ! i \<and> arrival_time (ps ! i) \<le> t"

text \<open>The number of entries of \<^verbatim>\<open>is_completed\<close> that are set.\<close>

definition count_done :: "bool list \<Rightarrow> nat" where
  "count_done done = length (filter (\<lambda>b. b) done)"

text \<open>
  What every iteration of the two SJF loops preserves, relative to the sorted array \<open>ps0\<close>
  the loop started from: the shapes of the arrays, the static fields, and the meaning of
  the counter.
\<close>

definition sjf_base :: "Process list \<Rightarrow> sjf_state \<Rightarrow> bool" where
  "sjf_base ps0 s \<longleftrightarrow>
     length (procs s) = length ps0 \<and> length (is_completed s) = length ps0 \<and>
     map static_fields (procs s) = map static_fields ps0 \<and>
     completed s = count_done (is_completed s)"

text \<open>
  The invariant of the non-preemptive loop: a marked process has no time left and its
  response time is what the metrics computation will derive as its waiting time; an
  unmarked process still has the \<open>remaining_time\<close> it came with.
\<close>

definition sjf_np_inv :: "Process list \<Rightarrow> sjf_state \<Rightarrow> bool" where
  "sjf_np_inv ps0 s \<longleftrightarrow>
     sjf_base ps0 s \<and>
     (\<forall>i<length ps0.
        (is_completed s ! i \<longrightarrow>
           remaining_time (procs s ! i) = 0 \<and>
           response_time (procs s ! i) =
             wrap_int (wrap_int (completion_time (procs s ! i) - arrival_time (procs s ! i))
                         - burst_time (procs s ! i))) \<and>
        (\<not> is_completed s ! i \<longrightarrow>
           remaining_time (procs s ! i) = remaining_time (ps0 ! i)))"

text \<open>The invariant of the preemptive loop.\<close>

definition sjf_p_inv :: "Process list \<Rightarrow> sjf_state \<Rightarrow> bool" where
  "sjf_p_inv ps0 s \<longleftrightarrow>
     sjf_base ps0 s \<and>
     (\<forall>i<length ps0.
        (is_completed s ! i \<longrightarrow> remaining_time (procs s ! i) = 0) \<and>
        (\<not> is_completed s ! i \<longrightarrow>
           0 < remaining_time (procs s ! i) \<and>
           remaining_time (procs s ! i) \<le> burst_time (procs s ! i)))"

text \<open>
  The values for which the two searches of \<^verbatim>\<open>sjf.c\<close>, which start from \<open>INT_MAX\<close> and
  compare with \<open><\<close>, can find a process.
\<close>

definition below_int_max :: "Process \<Rightarrow> bool" where
  "below_int_max p \<longleftrightarrow> arrival_time p \<le> INT_MAX \<and> burst_time p < INT_MAX"

text \<open>No process can be selected at the current time: the iteration will only move the clock.\<close>

definition sjf_idle :: "(Process \<Rightarrow> int) \<Rightarrow> sjf_state \<Rightarrow> nat" where
  "sjf_idle key s =
     (if find_shortest key (procs s) (is_completed s) (current_time s) = - 1 then 1 else 0)"

text \<open>The work left in the array, as a natural number.\<close>

definition remaining_work :: "Process list \<Rightarrow> nat" where
  "remaining_work ps = sum_list (map (\<lambda>p. nat (remaining_time p)) ps)"

section \<open>The range of the simulation clock\<close>

text \<open>
  The latest arrival time of a process set (0 for the empty set), and the bound that no
  clock of a scheduler exceeds while it has not overflowed: the latest arrival plus the
  sum of all burst times. A process set whose \<open>clock_limit\<close> is at most \<open>INT_MAX\<close> is one
  that the four schedulers simulate without \<^verbatim>\<open>int\<close> overflow.
\<close>

fun latest_arrival :: "Process list \<Rightarrow> int" where
  "latest_arrival [] = 0"
| "latest_arrival (p # ps) = max (arrival_time p) (latest_arrival ps)"

definition clock_limit :: "Process list \<Rightarrow> int" where
  "clock_limit ps = latest_arrival ps + sum_list (map burst_time ps)"

text \<open>The work left in the array, as the integer sum of the \<open>remaining_time\<close> fields.\<close>

definition work_left :: "Process list \<Rightarrow> int" where
  "work_left ps = sum_list (map remaining_time ps)"

text \<open>
  What the loops of the SJF and round-robin schedulers preserve of the array \<open>ps\<close> and the
  clock \<open>t\<close>, relative to the sorted array \<open>ps0\<close>, as long as \<open>clock_limit ps0\<close> is at most
  \<open>INT_MAX\<close>: the clock is not negative, the clock plus the work left stays
  within the limit, and a process without time left completed no earlier than it arrived.
\<close>

definition clock_inv :: "Process list \<Rightarrow> Process list \<Rightarrow> int \<Rightarrow> bool" where
  "clock_inv ps0 ps t \<longleftrightarrow>
     0 \<le> t \<and> (\<forall>i<length ps. 0 \<le> remaining_time (ps ! i)) \<and>
     work_left ps \<le> sum_list (map burst_time ps0) \<and>
     t + work_left ps \<le> clock_limit ps0 \<and>
     (\<forall>i<length ps. remaining_time (ps ! i) = 0 \<longrightarrow>
        arrival_time (ps ! i) \<le> completion_time (ps ! i))"

section \<open>The ready queue as a list\<close>

text \<open>
  The circular buffer is consistent: the array has \<open>capacity\<close> cells, \<open>front\<close> and \<open>size\<close>
  are within it, and \<open>rear\<close> is the cell before the next free one (initially \<open>-1\<close>).
\<close>

definition wf_queue :: "Queue \<Rightarrow> bool" where
  "wf_queue q \<longleftrightarrow>
     0 < capacity q \<and> length (data q) = capacity q \<and> front q < capacity q \<and>
     size' q \<le> capacity q \<and> - 1 \<le> rear q \<and>
     (rear q + 1) mod int (capacity q) = int ((front q + size' q) mod capacity q)"

text \<open>The contents of the queue, front first.\<close>

definition queue_list :: "Queue \<Rightarrow> nat list" where
  "queue_list q = map (\<lambda>k. data q ! ((front q + k) mod capacity q)) [0..<size' q]"

text \<open>The test and the body of the inner loop \<open>admit_arrivals\<close>.\<close>

definition has_arrived :: "rr_state \<Rightarrow> bool" where
  "has_arrived s \<longleftrightarrow>
     next_arrival_idx s < length (procs s) \<and>
     arrival_time (procs s ! next_arrival_idx s) \<le> current_time s"

definition admit_one :: "rr_state \<Rightarrow> rr_state" where
  "admit_one s =
     s\<lparr>ready_queue := snd (enqueue (ready_queue s) (next_arrival_idx s)),
       next_arrival_idx := next_arrival_idx s + 1\<rparr>"

section \<open>Notions used in the statements about round robin\<close>

text \<open>
  The process set is small enough for the capacity \<^verbatim>\<open>n * 100\<close> of the ready queue to be an
  \<^verbatim>\<open>int\<close>: at most 21474836 processes.
\<close>

definition queue_fits :: "Process list \<Rightarrow> bool" where
  "queue_fits ps \<longleftrightarrow> int (length ps) * 100 \<le> INT_MAX"

text \<open>
  The ready queue is consistent, at least as large as the array, and holds no more
  entries than processes have been admitted.
\<close>

definition rr_ok :: "rr_state \<Rightarrow> bool" where
  "rr_ok s \<longleftrightarrow>
     wf_queue (ready_queue s) \<and> length (procs s) \<le> capacity (ready_queue s) \<and>
     size' (ready_queue s) \<le> next_arrival_idx s \<and> next_arrival_idx s \<le> length (procs s)"

text \<open>
  The slice of one dispatch, as \<open>rr_body\<close> computes it: \<open>execution_time\<close>, and the process
  after the slice, dispatched at time \<open>t\<close>.
\<close>

definition execution_time :: "int \<Rightarrow> Process \<Rightarrow> int" where
  "execution_time time_quantum p =
     (if remaining_time p < time_quantum then remaining_time p else time_quantum)"

definition run_slice :: "int \<Rightarrow> int \<Rightarrow> Process \<Rightarrow> Process" where
  "run_slice time_quantum t p =
     (if \<not> started p then p\<lparr>response_time := wrap_int (t - arrival_time p), started := True\<rparr>
      else p)
       \<lparr>remaining_time := wrap_int (remaining_time p - execution_time time_quantum p)\<rparr>"

text \<open>The indices waiting in the ready queue of a state, front first.\<close>

definition ready_list :: "rr_state \<Rightarrow> nat list" where
  "ready_list s = queue_list (ready_queue s)"

text \<open>
  The invariant of the round-robin loop for a positive quantum, relative to the sorted
  array \<open>ps0\<close> it started from. Of the processes below \<open>next_arrival_idx\<close>, the ones in the
  queue (each once) still have work left, as have the ones not yet admitted; all others
  are finished and counted.
\<close>

definition rr_inv :: "Process list \<Rightarrow> rr_state \<Rightarrow> bool" where
  "rr_inv ps0 s \<longleftrightarrow>
     rr_ok s \<and> length (procs s) = length ps0 \<and>
     map static_fields (procs s) = map static_fields ps0 \<and>
     distinct (ready_list s) \<and> (\<forall>i\<in>set (ready_list s). i < next_arrival_idx s) \<and>
     completed s + length (ready_list s) = next_arrival_idx s \<and>
     (\<forall>i<length ps0. remaining_time (procs s ! i) \<le> INT_MAX) \<and>
     (\<forall>i<length ps0. i \<in> set (ready_list s) \<or> next_arrival_idx s \<le> i \<longrightarrow>
        0 < remaining_time (procs s ! i)) \<and>
     (\<forall>i<next_arrival_idx s. i \<notin> set (ready_list s) \<longrightarrow>
        remaining_time (procs s ! i) = 0)"

text \<open>
  What the round-robin loop preserves in addition when the clock cannot overflow: the
  clock invariant, and every admitted process has arrived by the current time.
\<close>

definition rr_clock :: "Process list \<Rightarrow> rr_state \<Rightarrow> bool" where
  "rr_clock ps0 s \<longleftrightarrow>
     clock_inv ps0 (procs s) (current_time s) \<and>
     (\<forall>i<next_arrival_idx s. arrival_time (procs s ! i) \<le> current_time s)"

text \<open>The ready queue stays empty when the arrivals are admitted: the iteration idles.\<close>

definition rr_idle :: "rr_state \<Rightarrow> nat" where
  "rr_idle s = (if ready_list (admit_arrivals s) = [] then 1 else 0)"

text \<open>A well-formed process whose burst time is the largest \<^verbatim>\<open>int\<close>.\<close>

definition longest_job :: Process where
  "longest_job = new_process ''P1'' 0 INT_MAX 1"

section \<open>The driver's check of the time quantum (\<^verbatim>\<open>main.c\<close>)\<close>

datatype exit_status = EXIT_SUCCESS | EXIT_FAILURE





section \<open>Notions used to compare round robin with FCFS\<close>

text \<open>The value of \<open>current_time\<close> when the loop of \<open>fcfs_schedule\<close> has run over a list.\<close>

fun fcfs_clock :: "int \<Rightarrow> Process list \<Rightarrow> int" where
  "fcfs_clock t [] = t"
| "fcfs_clock t (p # ps) =
     fcfs_clock (wrap_int ((if t < arrival_time p then arrival_time p else t) + burst_time p)) ps"

text \<open>
  The invariant of the round-robin loop when no burst exceeds the quantum and the clock
  cannot overflow: the first \<open>completed\<close> processes of the array have run, each in one
  slice, exactly as FCFS runs them; the queue holds the following indices in order; the
  clock is the FCFS clock, or has been moved forward to the arrival of the next process.
\<close>

definition rr_as_fcfs :: "Process list \<Rightarrow> rr_state \<Rightarrow> bool" where
  "rr_as_fcfs ps0 s \<longleftrightarrow>
     rr_ok s \<and> length (procs s) = length ps0 \<and>
     clock_inv ps0 (procs s) (current_time s) \<and>
     map static_fields (procs s) = map static_fields ps0 \<and>
     completed s \<le> next_arrival_idx s \<and>
     ready_list s = [completed s..<next_arrival_idx s] \<and>
     (\<forall>i<completed s. completion_time (procs s ! i) = fcfs_clock 0 (take (Suc i) ps0)) \<and>
     (\<forall>i<length ps0. completed s \<le> i \<longrightarrow> remaining_time (procs s ! i) = burst_time (ps0 ! i)) \<and>
     fcfs_clock 0 (take (completed s) ps0) \<le> current_time s \<and>
     (completed s < length ps0 \<longrightarrow>
        current_time s \<le> max (fcfs_clock 0 (take (completed s) ps0))
                              (arrival_time (ps0 ! completed s))) \<and>
     (\<forall>i<next_arrival_idx s. arrival_time (ps0 ! i) \<le> current_time s)"

text \<open>The arrival times of a process set are non-negative values of type \<^verbatim>\<open>int\<close>.\<close>

definition arrivals_fit :: "Process list \<Rightarrow> bool" where
  "arrivals_fit ps \<longleftrightarrow> (\<forall>p\<in>set ps. 0 \<le> arrival_time p \<and> arrival_time p \<le> INT_MAX)"

section \<open>Facts about sorting and about loops\<close>

subsection \<open>Wrap-around\<close>

lemma wrap_int_id: "- 2147483648 \<le> x \<Longrightarrow> x \<le> INT_MAX \<Longrightarrow> wrap_int x = x"
  by (simp add: wrap_int_def INT_MAX_def)

lemma wrap_int_nonneg: "0 \<le> x \<Longrightarrow> x \<le> INT_MAX \<Longrightarrow> wrap_int x = x"
  by (simp add: wrap_int_id)

lemma wrap_int_range: "- 2147483648 \<le> wrap_int x" "wrap_int x \<le> INT_MAX"
  by (simp_all add: wrap_int_def INT_MAX_def) 

lemma wrap_int_eq_iff: "wrap_int a = wrap_int b \<longleftrightarrow> a mod 4294967296 = b mod 4294967296"
proof
  assume "wrap_int a = wrap_int b"
  then have "(a + 2147483648) mod 4294967296 = (b + 2147483648) mod 4294967296"
    by (simp add: wrap_int_def)
  then have "(a + 2147483648 - 2147483648) mod 4294967296 = (b + 2147483648 - 2147483648) mod 4294967296"
    by (rule mod_diff_cong) simp
  then show "a mod 4294967296 = b mod 4294967296" by simp
next
  assume "a mod 4294967296 = b mod 4294967296"
  then have "(a + 2147483648) mod 4294967296 = (b + 2147483648) mod 4294967296"
    by (rule mod_add_cong) simp
  then show "wrap_int a = wrap_int b" by (simp add: wrap_int_def)
qed

lemma wrap_int_mod: "wrap_int a mod 4294967296 = a mod 4294967296"
proof -
  have "wrap_int a = (a + 2147483648) mod 4294967296 - 2147483648" by (simp add: wrap_int_def)
  then have "wrap_int a mod 4294967296 = ((a + 2147483648) mod 4294967296 - 2147483648) mod 4294967296"
    by simp
  also have "\<dots> = (a + 2147483648 - 2147483648) mod 4294967296"
    by (rule mod_diff_left_eq)
  finally show ?thesis by simp
qed

lemma wrap_int_diff_left: "wrap_int (wrap_int a - b) = wrap_int (a - b)"
  unfolding wrap_int_eq_iff using wrap_int_mod [of a] by (rule mod_diff_cong) simp

lemma wrap_int_round_trip: "wrap_int (wrap_int (wrap_int (t + b) - a) - b) = wrap_int (t - a)"
  by (simp add: wrap_int_diff_left)

lemma wrap_int_diff_small:
  "0 \<le> a \<Longrightarrow> a \<le> INT_MAX \<Longrightarrow> 0 \<le> b \<Longrightarrow> b \<le> INT_MAX \<Longrightarrow> wrap_int (a - b) = a - b"
  by (rule wrap_int_id) (simp_all add: INT_MAX_def)

subsection \<open>Sorting\<close>

lemma well_formed_arrivals_fit: "\<forall>p\<in>set ps. well_formed p \<Longrightarrow> arrivals_fit ps"
  by (simp add: arrivals_fit_def well_formed_def)

lemma compare_arrival_time_le:
  assumes "0 \<le> arrival_time a" "arrival_time a \<le> INT_MAX"
    "0 \<le> arrival_time b" "arrival_time b \<le> INT_MAX"
  shows "compare_arrival_time a b \<le> 0 \<longleftrightarrow> arrival_time a \<le> arrival_time b"
  using assms by (simp add: compare_arrival_time_def wrap_int_diff_small)

lemma sorted_by_comparison:
  assumes "arrivals_fit xs"
  shows "sorted_wrt (\<lambda>a b. compare_arrival_time a b \<le> 0) xs \<longleftrightarrow> sorted (map arrival_time xs)"
proof -
  have "sorted_wrt (\<lambda>a b. compare_arrival_time a b \<le> 0) xs
      \<longleftrightarrow> sorted_wrt (\<lambda>a b. arrival_time a \<le> arrival_time b) xs"
    using assms
    by (intro iffI; elim sorted_wrt_mono_rel [rotated])
       (simp_all add: arrivals_fit_def compare_arrival_time_le)
  then show ?thesis by (simp add: sorted_map)
qed

lemma qsort_post_mset: "qsort_post srt ps \<Longrightarrow> mset (srt ps) = mset ps"
  by (simp add: qsort_post_def)


lemma qsort_post_set: "qsort_post srt ps \<Longrightarrow> set (srt ps) = set ps"
  by (metis qsort_post_mset set_mset_mset)

lemma qsort_post_sorted:
  assumes "qsort_post srt ps" "arrivals_fit ps"
  shows "sorted (map arrival_time (srt ps))"
proof -
  from assms have "arrivals_fit (srt ps)" by (simp add: arrivals_fit_def qsort_post_set)
  with assms(1) show ?thesis by (simp add: sorted_by_comparison [symmetric] qsort_post_def)
qed

lemma sorted_perm_unique:
  assumes "mset qs = mset ps" "sorted (map f qs)" "sorted (map f ps)" "distinct (map f ps)"
  shows "qs = ps"
proof -
  have "mset (map f qs) = mset (map f ps)" using assms(1) by simp
  then have "sort (map f ps) = map f qs" using assms(2) by (rule properties_for_sort)
  moreover have "sort (map f ps) = map f ps" using assms(3) by (simp add: sort_key_id_if_sorted)
  ultimately have eq: "map f qs = map f ps" by simp
  have "set qs = set ps" using assms(1) by (metis set_mset_mset)
  moreover have "inj_on f (set ps)" using assms(4) by (simp add: distinct_map)
  ultimately have "inj_on f (set qs \<union> set ps)" by simp
  then show ?thesis using eq by (simp add: inj_on_map_eq_map)
qed

lemma qsort_post_id:
  "arrivals_fit ps \<Longrightarrow> qsort_post (\<lambda>xs. xs) ps \<longleftrightarrow> sorted (map arrival_time ps)"
  by (simp add: qsort_post_def sorted_by_comparison)

lemma qsort_post_strict:
  assumes "qsort_post srt ps" "arrivals_fit ps"
    "sorted (map arrival_time ps)" "distinct (map arrival_time ps)"
  shows "srt ps = ps"
  using assms sorted_perm_unique [of "srt ps" ps arrival_time]
  by (simp add: qsort_post_sorted qsort_post_mset)

lemma qsort_post_single: "qsort_post srt [p] \<Longrightarrow> srt [p] = [p]"
proof -
  assume "qsort_post srt [p]"
  then have "mset (srt [p]) = {#p#}" by (simp add: qsort_post_def)
  then show ?thesis by (simp add: mset_single_iff_right [symmetric] eq_commute)
qed

lemma qsort_post_sort_key: "arrivals_fit ps \<Longrightarrow> qsort_post (sort_key arrival_time) ps"
proof -
  assume "arrivals_fit ps"
  then have "arrivals_fit (sort_key arrival_time ps)" by (simp add: arrivals_fit_def)
  then show ?thesis
    using sorted_sort_key [of arrival_time ps] by (simp add: qsort_post_def sorted_by_comparison)
qed

lemma qsort_post_well_formed:
  "qsort_post srt ps \<Longrightarrow> \<forall>p\<in>set ps. well_formed p \<Longrightarrow> \<forall>p\<in>set (srt ps). well_formed p"
  by (simp add: qsort_post_set)

subsection \<open>Loops\<close>

lemma while_loop_rule:
  assumes run: "while_loop b c s = Some t" and init: "I s"
    and step: "\<And>s s'. I s \<Longrightarrow> b s \<Longrightarrow> c s = Continue s' \<Longrightarrow> I s'"
    and brk: "\<And>s s'. I s \<Longrightarrow> b s \<Longrightarrow> c s = Break s' \<Longrightarrow> Q s'"
    and fin: "\<And>s. I s \<Longrightarrow> \<not> b s \<Longrightarrow> Q s"
  shows "Q t"
proof -
  have "b = b \<longrightarrow> c = c \<longrightarrow> I s \<longrightarrow> Q t"
  proof (rule while_loop.raw_induct
      [where P = "\<lambda>b' c' s t. b' = b \<longrightarrow> c' = c \<longrightarrow> I s \<longrightarrow> Q t", OF _ run], intro impI)
    fix w b' c' s t
    assume IH: "\<And>b'' c'' s t. w b'' c'' s = Some t \<Longrightarrow> b'' = b \<longrightarrow> c'' = c \<longrightarrow> I s \<longrightarrow> Q t"
      and body: "(if b' s then case c' s of Continue s' \<Rightarrow> w b' c' s' | Break s' \<Rightarrow> Some s'
                  else Some s) = Some t"
      and eq: "b' = b" "c' = c" and inv: "I s"
    show "Q t"
    proof (cases "b s")
      case False
      with body eq have "t = s" by simp
      with fin inv False show ?thesis by simp
    next
      case True
      show ?thesis
      proof (cases "c s")
        case (Continue s')
        with body eq True have "w b c s' = Some t" by simp
        moreover have "I s'" using step inv True Continue by blast
        ultimately show ?thesis using IH by blast
      next
        case (Break s')
        with body eq True have "t = s'" by simp
        with brk inv True Break show ?thesis by blast
      qed
    qed
  qed
  with init show ?thesis by blast
qed

lemma while_loop_terminates:
  assumes wf: "wf r" and init: "I s"
    and step: "\<And>s s'. I s \<Longrightarrow> b s \<Longrightarrow> c s = Continue s' \<Longrightarrow> I s' \<and> (s', s) \<in> r"
  shows "\<exists>t. while_loop b c s = Some t"
  using wf init
proof (induction s rule: wf_induct_rule)
  case (less s)
  show ?case
  proof (cases "b s")
    case False
    then show ?thesis by (simp add: while_loop.simps)
  next
    case True
    show ?thesis
    proof (cases "c s")
      case (Continue s')
      with step less.prems True have "I s'" "(s', s) \<in> r" by blast+
      with less.IH obtain t where "while_loop b c s' = Some t" by blast
      with True Continue show ?thesis by (subst while_loop.simps) simp
    next
      case (Break s')
      with True show ?thesis by (subst while_loop.simps) simp
    qed
  qed
qed

lemma while_loop_diverges:
  assumes init: "I s"
    and step: "\<And>s. I s \<Longrightarrow> b s \<and> (\<exists>s'. c s = Continue s' \<and> I s')"
  shows "while_loop b c s = None"
proof (rule ccontr)
  assume "while_loop b c s \<noteq> None"
  then obtain t where "while_loop b c s = Some t" by blast
  then have False
    by (rule while_loop_rule [where I = I and Q = "\<lambda>_. False"])
       (use init step in fastforce)+
  then show False .
qed

lemma while_loop_stop: "\<not> b s \<Longrightarrow> while_loop b c s = Some s"
  by (subst while_loop.simps) simp

subsection \<open>Metrics\<close>

lemma snd_calculate_metrics: "snd (calculate_metrics ps) = map set_derived_times ps"
  by (simp add: calculate_metrics_def Let_def)

lemma set_derived_times_simps [simp]:
  "id' (set_derived_times p) = id' p"
  "arrival_time (set_derived_times p) = arrival_time p"
  "burst_time (set_derived_times p) = burst_time p"
  "priority (set_derived_times p) = priority p"
  "remaining_time (set_derived_times p) = remaining_time p"
  "completion_time (set_derived_times p) = completion_time p"
  "response_time (set_derived_times p) = response_time p"
  "started (set_derived_times p) = started p"
  "turnaround_time (set_derived_times p) = wrap_int (completion_time p - arrival_time p)"
  "waiting_time (set_derived_times p) =
     wrap_int (wrap_int (completion_time p - arrival_time p) - burst_time p)"
  by (simp_all add: set_derived_times_def Let_def)

lemma static_fields_set_derived [simp]: "static_fields (set_derived_times p) = static_fields p"
  by (simp add: static_fields_def)

subsection \<open>The clock limit\<close>

lemma latest_arrival_nonneg: "0 \<le> latest_arrival ps"
  by (induction ps) simp_all

lemma latest_arrival_Max: "latest_arrival ps = Max (insert 0 (arrival_time ` set ps))"
proof (induction ps)
  case Nil
  then show ?case by simp
next
  case (Cons p ps)
  have "Max (insert 0 (arrival_time ` set (p # ps)))
      = Max (insert (arrival_time p) (insert 0 (arrival_time ` set ps)))"
    by (simp add: insert_commute)
  also have "\<dots> = max (arrival_time p) (Max (insert 0 (arrival_time ` set ps)))"
    by (rule Max_insert) simp_all
  finally show ?case using Cons by simp
qed

lemma latest_arrival_ge: "p \<in> set ps \<Longrightarrow> arrival_time p \<le> latest_arrival ps"
  by (induction ps) auto

lemma clock_limit_mset:
  assumes "mset qs = mset ps"
  shows "clock_limit qs = clock_limit ps"
proof -
  from assms have "set qs = set ps" by (metis set_mset_mset)
  then have "latest_arrival qs = latest_arrival ps" by (simp add: latest_arrival_Max)
  moreover have "sum_list (map burst_time qs) = sum_list (map burst_time ps)"
    using assms by (metis mset_map sum_mset_sum_list)
  ultimately show ?thesis by (simp add: clock_limit_def)
qed

lemma latest_arrival_static:
  "map static_fields ps = map static_fields ps0 \<Longrightarrow> latest_arrival ps = latest_arrival ps0"
proof (induction ps arbitrary: ps0)
  case Nil
  then show ?case by simp
next
  case (Cons p ps)
  then obtain q qs where "ps0 = q # qs" by (cases ps0) auto
  with Cons show ?case by (auto simp: static_fields_def)
qed

subsection \<open>FCFS\<close>

lemma length_fcfs_loop [simp]: "length (fcfs_loop t ps) = length ps"
  by (induction ps arbitrary: t) (simp_all add: Let_def)

lemma static_fcfs_loop: "map static_fields (fcfs_loop t ps) = map static_fields ps"
  by (induction ps arbitrary: t) (simp_all add: Let_def static_fields_def)

lemma fcfs_loop_remaining: "p \<in> set (fcfs_loop t ps) \<Longrightarrow> remaining_time p = 0"
  by (induction ps arbitrary: t) (auto simp: Let_def)

lemma fcfs_loop_response:
  "p \<in> set (fcfs_loop t ps) \<Longrightarrow>
   response_time p = wrap_int (wrap_int (completion_time p - arrival_time p) - burst_time p)"
  by (induction ps arbitrary: t) (auto simp: Let_def wrap_int_round_trip)

lemma fcfs_loop_completion:
  assumes "\<forall>q\<in>set ps. 0 \<le> arrival_time q \<and> 0 \<le> burst_time q" and "0 \<le> t"
    and "max t (latest_arrival ps) + sum_list (map burst_time ps) \<le> INT_MAX"
    and "p \<in> set (fcfs_loop t ps)"
  shows "arrival_time p \<le> completion_time p"
  using assms
proof (induction ps arbitrary: t)
  case Nil
  then show ?case by simp
next
  case (Cons q qs)
  let ?t1 = "if t < arrival_time q then arrival_time q else t"
  let ?t' = "wrap_int (?t1 + burst_time q)"
  from Cons.prems(1) have q: "0 \<le> arrival_time q" "0 \<le> burst_time q" by simp_all
  have rest: "0 \<le> sum_list (map burst_time qs)"
    using Cons.prems(1) by (intro sum_list_nonneg) auto
  have "?t1 + burst_time q \<le> INT_MAX"
    using Cons.prems(3) rest latest_arrival_nonneg [of qs] by (auto simp: max_def split: if_splits)
  moreover have "0 \<le> ?t1 + burst_time q" using q Cons.prems(2) by simp
  ultimately have t': "?t' = ?t1 + burst_time q" by (rule wrap_int_nonneg [rotated])
  show ?case
  proof (cases "p \<in> set (fcfs_loop ?t' qs)")
    case True
    have "max ?t' (latest_arrival qs) + sum_list (map burst_time qs) \<le> INT_MAX"
      unfolding t' using Cons.prems(3) q by (auto simp: max_def split: if_splits)
    moreover have "0 \<le> ?t'" unfolding t' using q Cons.prems(2) by simp
    ultimately show ?thesis using Cons.IH [of ?t'] Cons.prems(1) True by simp
  next
    case False
    with Cons.prems(4) have "arrival_time p = arrival_time q" "completion_time p = ?t'"
      by (auto simp: Let_def)
    then show ?thesis unfolding t' using q by simp
  qed
qed

lemma fcfs_done:
  assumes "qsort_post srt ps" "\<forall>p\<in>set ps. well_formed p" "p \<in> set (snd (fcfs_schedule srt ps))"
  shows "remaining_time p = 0"
    and "clock_limit ps \<le> INT_MAX \<Longrightarrow> arrival_time p \<le> completion_time p"
proof -
  from assms(3) obtain q where q: "q \<in> set (fcfs_loop 0 (srt ps))" and p: "p = set_derived_times q"
    by (auto simp: fcfs_schedule_def snd_calculate_metrics)
  from q p show "remaining_time p = 0" by (simp add: fcfs_loop_remaining)
  assume lim: "clock_limit ps \<le> INT_MAX"
  have "\<forall>q\<in>set (srt ps). 0 \<le> arrival_time q \<and> 0 \<le> burst_time q"
    using assms(1,2) by (auto simp: qsort_post_set well_formed_def)
  moreover have "max 0 (latest_arrival (srt ps)) + sum_list (map burst_time (srt ps)) \<le> INT_MAX"
    using lim clock_limit_mset [OF qsort_post_mset [OF assms(1)]] latest_arrival_nonneg [of "srt ps"]
    by (simp add: clock_limit_def)
  ultimately have "arrival_time q \<le> completion_time q"
    using q by (intro fcfs_loop_completion [of "srt ps" 0]) simp_all
  with p show "arrival_time p \<le> completion_time p" by simp
qed

lemma fcfs_response_waiting:
  assumes "p \<in> set (snd (fcfs_schedule srt ps))"
  shows "response_time p = waiting_time p"
proof -
  from assms obtain q where q: "q \<in> set (fcfs_loop 0 (srt ps))" and p: "p = set_derived_times q"
    by (auto simp: fcfs_schedule_def snd_calculate_metrics)
  with fcfs_loop_response [OF q] show ?thesis by simp
qed

lemma fcfs_static:
  assumes "qsort_post srt ps"
  shows "mset (map static_fields (snd (fcfs_schedule srt ps))) = mset (map static_fields ps)"
proof -
  have "map static_fields (snd (fcfs_schedule srt ps)) = map static_fields (fcfs_loop 0 (srt ps))"
    by (simp add: fcfs_schedule_def snd_calculate_metrics comp_def)
  then have "map static_fields (snd (fcfs_schedule srt ps)) = map static_fields (srt ps)"
    by (simp only: static_fcfs_loop)
  then show ?thesis using assms by (simp add: qsort_post_mset)
qed

subsection \<open>The scenario\<close>

lemma arrivals_fit_scenario: "arrivals_fit scenario"
  by (simp add: arrivals_fit_def scenario_def new_process_def INT_MAX_def)

lemma well_formed_scenario: "\<forall>p\<in>set scenario. well_formed p"
  by (simp add: scenario_def new_process_def well_formed_def INT_MAX_def)

lemma qsort_post_scenario_id: "qsort_post (\<lambda>xs. xs) scenario"
  by (simp add: qsort_post_id arrivals_fit_scenario) (simp add: scenario_def new_process_def)

lemma qsort_post_scenario: "qsort_post srt scenario \<Longrightarrow> srt scenario = scenario"
  by (rule qsort_post_strict) (simp_all add: arrivals_fit_scenario, simp_all add: scenario_def new_process_def)

lemma fcfs_scenario:
  "map (\<lambda>p. (id' p, completion_time p, waiting_time p)) (snd (fcfs_schedule (\<lambda>xs. xs) scenario))
     = [(''P1'', 5, 0), (''P2'', 8, 4), (''P3'', 16, 6)]"
  by code_simp

lemma srtf_scenario:
  "map_option (map (\<lambda>p. (id' p, completion_time p, response_time p)) \<circ> snd) (sjf_preemptive_schedule (\<lambda>xs. xs) scenario)
     = Some [(''P1'', 8, 0), (''P2'', 4, 0), (''P3'', 16, 6)]"
  by code_simp

text \<open>
  Claim C2. On the scenario, whatever order-respecting result \<^verbatim>\<open>qsort\<close> delivers,
  \<open>fcfs_schedule\<close> gives P1, P2, P3 the completion times 5, 8, 16 and the waiting times
  0, 4, 6, and \<open>sjf_preemptive_schedule\<close> returns with the completion times 8, 4, 16.
  The response times of the preemptive run are 0, 0, 6: P2 is dispatched at its arrival
  \<open>t = 1\<close>, while P1 is unfinished, and P3 is first dispatched at \<open>t = 8\<close>, when P1 has completed.
\<close>

theorem scenario_fcfs_srtf:
  assumes "qsort_post srt scenario"
  shows "map (\<lambda>p. (id' p, completion_time p, waiting_time p)) (snd (fcfs_schedule srt scenario))
           = [(''P1'', 5, 0), (''P2'', 8, 4), (''P3'', 16, 6)]
       \<and> map_option (map (\<lambda>p. (id' p, completion_time p, response_time p)) \<circ> snd) (sjf_preemptive_schedule srt scenario)
           = Some [(''P1'', 8, 0), (''P2'', 4, 0), (''P3'', 16, 6)]"
proof -
  have eq: "srt scenario = scenario" using assms by (rule qsort_post_scenario)
  have "fcfs_schedule srt scenario = fcfs_schedule (\<lambda>xs. xs) scenario"
    by (simp add: fcfs_schedule_def eq)
  moreover have "sjf_preemptive_schedule srt scenario = sjf_preemptive_schedule (\<lambda>xs. xs) scenario"
    by (simp add: sjf_preemptive_schedule_def eq)
  ultimately show ?thesis using fcfs_scenario srtf_scenario by simp
qed

theorem scenario_fcfs_srtf_witness:
  "qsort_post (\<lambda>xs. xs) scenario
   \<and> map (\<lambda>p. (id' p, completion_time p, waiting_time p)) (snd (fcfs_schedule (\<lambda>xs. xs) scenario))
           = [(''P1'', 5, 0), (''P2'', 8, 4), (''P3'', 16, 6)]
   \<and> map_option (map (\<lambda>p. (id' p, completion_time p, response_time p)) \<circ> snd) (sjf_preemptive_schedule (\<lambda>xs. xs) scenario)
           = Some [(''P1'', 8, 0), (''P2'', 4, 0), (''P3'', 16, 6)]"
proof -
  have h: "qsort_post (\<lambda>xs. xs) scenario" by (rule qsort_post_scenario_id)
  show ?thesis using h scenario_fcfs_srtf [OF h] by simp
qed

subsection \<open>The effect of the metrics computation\<close>

text \<open>
  Claim C9 as stated fails: \<^verbatim>\<open>calculate_metrics\<close> stores the turnaround and the waiting
  time into the array. For the completed process P1 the array element changes.
\<close>

theorem calculate_metrics_writes_counterexample:
  "snd (calculate_metrics [finished_P1]) \<noteq> [finished_P1]
   \<and> turnaround_time finished_P1 = 0
   \<and> map turnaround_time (snd (calculate_metrics [finished_P1])) = [5]"
  by (simp add: snd_calculate_metrics finished_P1_def new_process_def set_derived_times_def
      wrap_int_def)

text \<open>
  Claim C9, amended. \<^verbatim>\<open>calculate_metrics\<close> is a function of the array alone. It returns
  the three averages (of \<open>completion_time - arrival_time\<close>, of that minus \<open>burst_time\<close>, and
  of \<open>response_time\<close>, each a float total divided by \<open>n\<close>), keeps the length of the array,
  leaves the fields id, arrival, burst, priority, remaining, completion, response and
  started of every process unchanged, and overwrites \<open>turnaround_time\<close> with
  \<open>completion_time - arrival_time\<close> and \<open>waiting_time\<close> with that minus \<open>burst_time\<close>, both
  in \<^verbatim>\<open>int\<close> arithmetic.
\<close>

theorem calculate_metrics_frame:
  "length (snd (calculate_metrics ps)) = length ps
   \<and> map kept_fields (snd (calculate_metrics ps)) = map kept_fields ps
   \<and> map turnaround_time (snd (calculate_metrics ps))
       = map (\<lambda>p. wrap_int (completion_time p - arrival_time p)) ps
   \<and> map waiting_time (snd (calculate_metrics ps))
       = map (\<lambda>p. wrap_int (wrap_int (completion_time p - arrival_time p) - burst_time p)) ps
   \<and> fst (calculate_metrics ps) =
       \<lparr>avg_turnaround_time =
          FDiv (float_total (map (\<lambda>p. wrap_int (completion_time p - arrival_time p)) ps))
            (FInt (int (length ps))),
        avg_waiting_time =
          FDiv (float_total
                 (map (\<lambda>p. wrap_int (wrap_int (completion_time p - arrival_time p) - burst_time p)) ps))
            (FInt (int (length ps))),
        avg_response_time =
          FDiv (float_total (map response_time ps)) (FInt (int (length ps)))\<rparr>"
  by (simp add: calculate_metrics_def Let_def kept_fields_def comp_def)

subsection \<open>The two searches of the SJF functions\<close>

lemma fold_shortest_step:
  "k \<le> length ps \<Longrightarrow>
   fold (shortest_step key ps done t) [0..<k] (- 1, INT_MAX) = (idx, best) \<Longrightarrow>
     (idx = - 1 \<and> best = INT_MAX \<and> (\<forall>j<k. eligible ps done t j \<longrightarrow> INT_MAX \<le> key (ps ! j)))
   \<or> (0 \<le> idx \<and> nat idx < k \<and> eligible ps done t (nat idx) \<and> best = key (ps ! nat idx)
       \<and> best < INT_MAX
       \<and> (\<forall>j<k. eligible ps done t j \<longrightarrow> best \<le> key (ps ! j))
       \<and> (\<forall>j<nat idx. eligible ps done t j \<longrightarrow> best < key (ps ! j)))"
proof (induction k arbitrary: idx best)
  case 0
  then show ?case by simp
next
  case (Suc k)
  obtain idx0 best0 where f: "fold (shortest_step key ps done t) [0..<k] (- 1, INT_MAX) = (idx0, best0)"
    by (cases "fold (shortest_step key ps done t) [0..<k] (- 1, INT_MAX)")
  from Suc.prems have k: "k \<le> length ps" by simp
  note IH = Suc.IH [OF k f]
  from Suc.prems(2) f have st: "shortest_step key ps done t k (idx0, best0) = (idx, best)"
    by simp
  show ?case
  proof (cases "eligible ps done t k \<and> key (ps ! k) < best0")
    case True
    with st have "idx = int k" "best = key (ps ! k)"
      by (auto simp: shortest_step_def eligible_def)
    with True IH show ?thesis
      by (auto simp: less_Suc_eq)
  next
    case False
    with st have "idx = idx0" "best = best0"
      by (auto simp: shortest_step_def eligible_def)
    with False IH show ?thesis
      by (auto simp: less_Suc_eq)
  qed
qed

lemma find_shortest_none:
  assumes "find_shortest key ps done t = - 1"
  shows "\<forall>j<length ps. eligible ps done t j \<longrightarrow> INT_MAX \<le> key (ps ! j)"
proof -
  obtain idx best where f: "fold (shortest_step key ps done t) [0..<length ps] (- 1, INT_MAX) = (idx, best)"
    by (cases "fold (shortest_step key ps done t) [0..<length ps] (- 1, INT_MAX)")
  with assms have "idx = - 1" by (simp add: find_shortest_def)
  with fold_shortest_step [OF le_refl f] show ?thesis by auto
qed

lemma find_shortest_some:
  assumes "find_shortest key ps done t \<noteq> - 1"
  defines "i \<equiv> nat (find_shortest key ps done t)"
  shows "find_shortest key ps done t = int i" "i < length ps" "eligible ps done t i"
    "key (ps ! i) < INT_MAX"
    "\<forall>j<length ps. eligible ps done t j \<longrightarrow> key (ps ! i) \<le> key (ps ! j)"
    "\<forall>j<i. eligible ps done t j \<longrightarrow> key (ps ! i) < key (ps ! j)"
proof -
  obtain idx best where f: "fold (shortest_step key ps done t) [0..<length ps] (- 1, INT_MAX) = (idx, best)"
    by (cases "fold (shortest_step key ps done t) [0..<length ps] (- 1, INT_MAX)")
  then have idx: "find_shortest key ps done t = idx" by (simp add: find_shortest_def)
  with assms(1) have "idx \<noteq> - 1" by simp
  with fold_shortest_step [OF le_refl f]
  have *: "0 \<le> idx" "nat idx < length ps" "eligible ps done t (nat idx)" "best = key (ps ! nat idx)"
    "best < INT_MAX" "\<forall>j<length ps. eligible ps done t j \<longrightarrow> best \<le> key (ps ! j)"
    "\<forall>j<nat idx. eligible ps done t j \<longrightarrow> best < key (ps ! j)"
    by auto
  show "find_shortest key ps done t = int i" using * idx by (simp add: i_def)
  show "i < length ps" using * idx by (simp add: i_def)
  show "eligible ps done t i" using * idx by (simp add: i_def)
  show "key (ps ! i) < INT_MAX" using * idx by (simp add: i_def)
  show "\<forall>j<length ps. eligible ps done t j \<longrightarrow> key (ps ! i) \<le> key (ps ! j)"
    using * idx by (simp add: i_def)
  show "\<forall>j<i. eligible ps done t j \<longrightarrow> key (ps ! i) < key (ps ! j)"
    using * idx by (simp add: i_def)
qed

lemma find_shortest_exists:
  assumes "j < length ps" "eligible ps done t j" "key (ps ! j) < INT_MAX"
  shows "find_shortest key ps done t \<noteq> - 1"
  using find_shortest_none [of key ps "done" t] assms by fastforce

lemma fold_arrival_step:
  "k \<le> length ps \<Longrightarrow>
   fold (arrival_step ps done) [0..<k] INT_MAX = m \<Longrightarrow>
     m \<le> INT_MAX \<and> (\<forall>j<k. \<not> done ! j \<longrightarrow> m \<le> arrival_time (ps ! j))
     \<and> (m = INT_MAX \<or> (\<exists>j<k. \<not> done ! j \<and> arrival_time (ps ! j) = m))"
proof (induction k arbitrary: m)
  case 0
  then show ?case by simp
next
  case (Suc k)
  define m0 where "m0 = fold (arrival_step ps done) [0..<k] INT_MAX"
  from Suc.prems have k: "k \<le> length ps" by simp
  note IH = Suc.IH [OF k m0_def [symmetric]]
  from Suc.prems(2) have st: "arrival_step ps done k m0 = m" by (simp add: m0_def)
  show ?case
  proof (cases "\<not> done ! k \<and> arrival_time (ps ! k) < m0")
    case True
    with st have "m = arrival_time (ps ! k)" by (auto simp: arrival_step_def)
    with True IH show ?thesis by (auto simp: less_Suc_eq)
  next
    case False
    with st have "m = m0" by (auto simp: arrival_step_def)
    with False IH show ?thesis by (auto simp: less_Suc_eq)
  qed
qed

lemma find_next_arrival_props:
  "find_next_arrival ps done \<le> INT_MAX"
  "j < length ps \<Longrightarrow> \<not> done ! j \<Longrightarrow> find_next_arrival ps done \<le> arrival_time (ps ! j)"
  "find_next_arrival ps done = INT_MAX \<or>
     (\<exists>j<length ps. \<not> done ! j \<and> arrival_time (ps ! j) = find_next_arrival ps done)"
  using fold_arrival_step [OF le_refl refl, of ps "done"]
  by (auto simp: find_next_arrival_def)


lemma sjf_np_body_dispatch:
  assumes "find_shortest burst_time (procs s) (is_completed s) (current_time s) = int i"
  shows "\<exists>s'. sjf_np_body s = Continue s'
           \<and> is_completed s' = (is_completed s)[i := True]
           \<and> completed s' = completed s + 1
           \<and> current_time s' = wrap_int (current_time s + burst_time (procs s ! i))
           \<and> procs s' = (procs s)[i := (procs s ! i)
                \<lparr>response_time := wrap_int (current_time s - arrival_time (procs s ! i)),
                 started := True,
                 completion_time := wrap_int (current_time s + burst_time (procs s ! i)),
                 remaining_time := 0\<rparr>]"
  using assms by (simp add: sjf_np_body_def Let_def)

lemma sjf_np_body_idle:
  assumes "find_shortest burst_time (procs s) (is_completed s) (current_time s) = - 1"
  shows "sjf_np_body s = Continue (s\<lparr>current_time := find_next_arrival (procs s) (is_completed s)\<rparr>)"
  using assms by (simp add: sjf_np_body_def Let_def)



subsection \<open>Invariants of the SJF loops\<close>

lemma count_done_all: "length xs \<le> count_done xs \<Longrightarrow> i < length xs \<Longrightarrow> xs ! i"
  unfolding count_done_def
  by (metis length_filter_less nth_mem not_less)

lemma count_done_update:
  "i < length xs \<Longrightarrow> \<not> xs ! i \<Longrightarrow> count_done (xs[i := True]) = Suc (count_done xs)"
proof (induction xs arbitrary: i)
  case Nil
  then show ?case by simp
next
  case (Cons x xs)
  then show ?case by (cases i) (auto simp: count_done_def)
qed

lemma count_done_replicate [simp]: "count_done (replicate n False) = 0"
  by (simp add: count_done_def)

lemma count_done_open: "count_done xs < length xs \<Longrightarrow> \<exists>i<length xs. \<not> xs ! i"
  unfolding count_done_def
  by (metis filter_True in_set_conv_nth less_irrefl)

lemma static_fields_nth:
  "map static_fields ps = map static_fields ps0 \<Longrightarrow> i < length ps0 \<Longrightarrow>
   arrival_time (ps ! i) = arrival_time (ps0 ! i) \<and> burst_time (ps ! i) = burst_time (ps0 ! i)"
  by (metis (no_types, lifting) Pair_inject length_map nth_map static_fields_def)

lemma static_fields_update:
  "map static_fields ps = map static_fields ps0 \<Longrightarrow> i < length ps \<Longrightarrow>
   static_fields p = static_fields (ps ! i) \<Longrightarrow>
   map static_fields (ps[i := p]) = map static_fields ps0"
  by (metis list_update_id map_update nth_map)

lemma sjf_base_init: "sjf_base ps0 (sjf_init ps0)"
  by (simp add: sjf_base_def sjf_init_def)

lemma sjf_np_inv_init: "sjf_np_inv ps0 (sjf_init ps0)"
  by (simp add: sjf_np_inv_def sjf_base_init) (simp add: sjf_init_def)

lemma sjf_p_inv_init:
  assumes "\<forall>p\<in>set ps0. well_formed p"
  shows "sjf_p_inv ps0 (sjf_init ps0)"
  using assms by (simp add: sjf_p_inv_def sjf_base_init) (simp add: sjf_init_def well_formed_def)


lemma sjf_np_inv_step:
  assumes inv: "sjf_np_inv ps0 s" and body: "sjf_np_body s = Continue s'"
  shows "sjf_np_inv ps0 s'"
proof (cases "find_shortest burst_time (procs s) (is_completed s) (current_time s) = - 1")
  case True
  from sjf_np_body_idle [OF True] body
  have "s' = s\<lparr>current_time := find_next_arrival (procs s) (is_completed s)\<rparr>" by simp
  with inv show ?thesis by (simp add: sjf_np_inv_def sjf_base_def)
next
  case False
  define i where "i = nat (find_shortest burst_time (procs s) (is_completed s) (current_time s))"
  note fs = find_shortest_some [OF False, folded i_def]
  from inv have base: "sjf_base ps0 s" by (simp add: sjf_np_inv_def)
  then have len: "length (procs s) = length ps0" "length (is_completed s) = length ps0"
    and st: "map static_fields (procs s) = map static_fields ps0"
    and cnt: "completed s = count_done (is_completed s)"
    by (simp_all add: sjf_base_def)
  from fs(3) have nd: "\<not> is_completed s ! i" and arr: "arrival_time (procs s ! i) \<le> current_time s"
    by (simp_all add: eligible_def)
  from sjf_np_body_dispatch [OF fs(1)] body
  have s': "is_completed s' = (is_completed s)[i := True]"
    "completed s' = completed s + 1"
    "procs s' = (procs s)[i := (procs s ! i)
        \<lparr>response_time := wrap_int (current_time s - arrival_time (procs s ! i)),
         started := True,
         completion_time := wrap_int (current_time s + burst_time (procs s ! i)),
         remaining_time := 0\<rparr>]"
    by auto
  have "sjf_base ps0 s'"
    unfolding sjf_base_def
  proof (intro conjI)
    show "length (procs s') = length ps0" using s' len by simp
    show "length (is_completed s') = length ps0" using s' len by simp
    show "map static_fields (procs s') = map static_fields ps0"
      unfolding s'(3) using st fs(2) by (rule static_fields_update) (simp add: static_fields_def)
    show "completed s' = count_done (is_completed s')"
      using s' cnt nd fs(2) len by (simp add: count_done_update)
  qed
  moreover have "(is_completed s' ! j \<longrightarrow>
           remaining_time (procs s' ! j) = 0 \<and>
           response_time (procs s' ! j) =
             wrap_int (wrap_int (completion_time (procs s' ! j) - arrival_time (procs s' ! j))
                         - burst_time (procs s' ! j))) \<and>
        (\<not> is_completed s' ! j \<longrightarrow>
           remaining_time (procs s' ! j) = remaining_time (ps0 ! j))"
    if j: "j < length ps0" for j
  proof (cases "j = i")
    case True
    with s' fs(2) len show ?thesis by (simp add: wrap_int_round_trip)
  next
    case False
    with s' j len have "procs s' ! j = procs s ! j" "is_completed s' ! j = is_completed s ! j"
      by simp_all
    with inv j show ?thesis by (simp add: sjf_np_inv_def)
  qed
  ultimately show ?thesis by (simp add: sjf_np_inv_def)
qed

lemma sjf_np_body_continues: "\<exists>s'. sjf_np_body s = Continue s'"
  by (simp add: sjf_np_body_def Let_def)

lemma sjf_np_inv_final:
  assumes run: "while_loop sjf_running sjf_np_body (sjf_init ps0) = Some s"
  shows "sjf_np_inv ps0 s \<and> \<not> sjf_running s"
proof (rule while_loop_rule [OF run, where I = "sjf_np_inv ps0"])
  show "sjf_np_inv ps0 (sjf_init ps0)" by (rule sjf_np_inv_init)
next
  fix s s' assume "sjf_np_inv ps0 s" "sjf_np_body s = Continue s'"
  then show "sjf_np_inv ps0 s'" by (rule sjf_np_inv_step)
next
  fix s s' assume "sjf_np_body s = Break s'"
  with sjf_np_body_continues [of s] show "sjf_np_inv ps0 s' \<and> \<not> sjf_running s'" by simp
next
  fix s assume "sjf_np_inv ps0 s" "\<not> sjf_running s"
  then show "sjf_np_inv ps0 s \<and> \<not> sjf_running s" by simp
qed

lemma sjf_all_completed:
  assumes "sjf_base ps0 s" "\<not> sjf_running s" "i < length ps0"
  shows "is_completed s ! i"
  using assms by (simp add: sjf_base_def sjf_running_def count_done_all)

lemma sjf_np_result:
  assumes run: "sjf_non_preemptive_schedule srt ps = Some r"
  shows "map static_fields (snd r) = map static_fields (srt ps)"
    and "p \<in> set (snd r) \<Longrightarrow> remaining_time p = 0 \<and> response_time p = waiting_time p"
proof -
  from run obtain s where loop: "while_loop sjf_running sjf_np_body (sjf_init (srt ps)) = Some s"
    and r: "r = calculate_metrics (procs s)"
    by (auto simp: sjf_non_preemptive_schedule_def split: option.splits)
  from sjf_np_inv_final [OF loop] have inv: "sjf_np_inv (srt ps) s" and fin: "\<not> sjf_running s"
    by simp_all
  then have base: "sjf_base (srt ps) s" by (simp add: sjf_np_inv_def)
  show "map static_fields (snd r) = map static_fields (srt ps)"
    using base by (simp add: r snd_calculate_metrics sjf_base_def comp_def)
  assume "p \<in> set (snd r)"
  then obtain i where i: "i < length (procs s)" and p: "p = set_derived_times (procs s ! i)"
    by (auto simp: r snd_calculate_metrics in_set_conv_nth)
  with base have i': "i < length (srt ps)" by (simp add: sjf_base_def)
  with sjf_all_completed [OF base fin] have "is_completed s ! i" by simp
  with inv i' show "remaining_time p = 0 \<and> response_time p = waiting_time p"
    by (simp add: p sjf_np_inv_def)
qed

lemma sjf_p_body_idle:
  assumes "find_shortest remaining_time (procs s) (is_completed s) (current_time s) = - 1"
  shows "sjf_p_body s = Continue (s\<lparr>current_time := find_next_arrival (procs s) (is_completed s)\<rparr>)"
  using assms by (simp add: sjf_p_body_def Let_def)

lemma sjf_p_body_dispatch:
  assumes "find_shortest remaining_time (procs s) (is_completed s) (current_time s) = int i"
    and "sjf_p_body s = Continue s'" and "i < length (procs s)"
  shows "procs s' = (procs s)[i := procs s' ! i]"
    and "static_fields (procs s' ! i) = static_fields (procs s ! i)"
    and "remaining_time (procs s' ! i) = wrap_int (remaining_time (procs s ! i) - 1)"
    and "current_time s' = wrap_int (current_time s + 1)"
    and "if remaining_time (procs s' ! i) = 0
         then completion_time (procs s' ! i) = wrap_int (current_time s + 1)
            \<and> is_completed s' = (is_completed s)[i := True]
            \<and> completed s' = completed s + 1
         else is_completed s' = is_completed s \<and> completed s' = completed s"
  using assms by (auto simp: sjf_p_body_def Let_def static_fields_def split: if_splits)

lemma sjf_p_body_continues: "\<exists>s'. sjf_p_body s = Continue s'"
  by (simp add: sjf_p_body_def Let_def)

lemma sjf_p_inv_step:
  assumes inv: "sjf_p_inv ps0 s" and body: "sjf_p_body s = Continue s'"
    and wf: "\<forall>p\<in>set ps0. well_formed p"
  shows "sjf_p_inv ps0 s'"
proof (cases "find_shortest remaining_time (procs s) (is_completed s) (current_time s) = - 1")
  case True
  from sjf_p_body_idle [OF True] body
  have "s' = s\<lparr>current_time := find_next_arrival (procs s) (is_completed s)\<rparr>" by simp
  with inv show ?thesis by (simp add: sjf_p_inv_def sjf_base_def)
next
  case False
  define i where "i = nat (find_shortest remaining_time (procs s) (is_completed s) (current_time s))"
  note fs = find_shortest_some [OF False, folded i_def]
  from inv have base: "sjf_base ps0 s" by (simp add: sjf_p_inv_def)
  then have len: "length (procs s) = length ps0" "length (is_completed s) = length ps0"
    and st: "map static_fields (procs s) = map static_fields ps0"
    and cnt: "completed s = count_done (is_completed s)"
    by (simp_all add: sjf_base_def)
  from fs(3) have nd: "\<not> is_completed s ! i" and arr: "arrival_time (procs s ! i) \<le> current_time s"
    by (simp_all add: eligible_def)
  define p' where "p' = procs s' ! i"
  note s' = sjf_p_body_dispatch(1,2,3,5) [OF fs(1) body fs(2), folded p'_def]
  from s'(2) have same: "arrival_time p' = arrival_time (procs s ! i)"
    "burst_time p' = burst_time (procs s ! i)"
    by (simp_all add: static_fields_def)
  from inv nd fs(2) len have rem: "0 < remaining_time (procs s ! i)"
    "remaining_time (procs s ! i) \<le> burst_time (procs s ! i)"
    by (simp_all add: sjf_p_inv_def)
  from wf fs(2) len have "burst_time (ps0 ! i) \<le> INT_MAX" by (simp add: well_formed_def)
  with static_fields_nth [OF st] fs(2) len have "burst_time (procs s ! i) \<le> INT_MAX" by simp
  with rem have "wrap_int (remaining_time (procs s ! i) - 1) = remaining_time (procs s ! i) - 1"
    by (intro wrap_int_nonneg) simp_all
  note s' = s'(1,2) s'(3) [unfolded this] s'(4)
  have "sjf_base ps0 s'"
    unfolding sjf_base_def
  proof (intro conjI)
    show "length (procs s') = length ps0" using s' len by simp
    show "length (is_completed s') = length ps0" using s' len by (simp split: if_splits)
    show "map static_fields (procs s') = map static_fields ps0"
      unfolding s'(1) using st fs(2) s'(2) by (rule static_fields_update)
    show "completed s' = count_done (is_completed s')"
      using s'(4) cnt nd fs(2) len by (simp add: count_done_update split: if_splits)
  qed
  moreover have "(is_completed s' ! j \<longrightarrow> remaining_time (procs s' ! j) = 0) \<and>
        (\<not> is_completed s' ! j \<longrightarrow>
           0 < remaining_time (procs s' ! j) \<and>
           remaining_time (procs s' ! j) \<le> burst_time (procs s' ! j))"
    if j: "j < length ps0" for j
  proof (cases "j = i")
    case True
    have "procs s' ! i = p'" using s'(1) fs(2) by simp
    with True s'(3,4) same rem arr nd fs(2) len show ?thesis
      by (auto split: if_splits)
  next
    case False
    with s' j len have "procs s' ! j = procs s ! j" "is_completed s' ! j = is_completed s ! j"
      by (simp_all split: if_splits)
    with inv j show ?thesis by (simp add: sjf_p_inv_def)
  qed
  ultimately show ?thesis by (simp add: sjf_p_inv_def)
qed

lemma sjf_p_inv_final:
  assumes run: "while_loop sjf_running sjf_p_body (sjf_init ps0) = Some s"
    and wf: "\<forall>p\<in>set ps0. well_formed p"
  shows "sjf_p_inv ps0 s \<and> \<not> sjf_running s"
proof (rule while_loop_rule [OF run, where I = "sjf_p_inv ps0"])
  show "sjf_p_inv ps0 (sjf_init ps0)" using wf by (rule sjf_p_inv_init)
next
  fix s s' assume "sjf_p_inv ps0 s" "sjf_p_body s = Continue s'"
  then show "sjf_p_inv ps0 s'" using wf by (rule sjf_p_inv_step)
next
  fix s s' assume "sjf_p_body s = Break s'"
  with sjf_p_body_continues [of s] show "sjf_p_inv ps0 s' \<and> \<not> sjf_running s'" by simp
next
  fix s assume "sjf_p_inv ps0 s" "\<not> sjf_running s"
  then show "sjf_p_inv ps0 s \<and> \<not> sjf_running s" by simp
qed

lemma sjf_p_result:
  assumes run: "sjf_preemptive_schedule srt ps = Some r"
    and wf: "\<forall>p\<in>set (srt ps). well_formed p"
  shows "map static_fields (snd r) = map static_fields (srt ps)"
    and "p \<in> set (snd r) \<Longrightarrow> remaining_time p = 0"
proof -
  from run obtain s where loop: "while_loop sjf_running sjf_p_body (sjf_init (srt ps)) = Some s"
    and r: "r = calculate_metrics (procs s)"
    by (auto simp: sjf_preemptive_schedule_def split: option.splits)
  from sjf_p_inv_final [OF loop wf] have inv: "sjf_p_inv (srt ps) s" and fin: "\<not> sjf_running s"
    by simp_all
  then have base: "sjf_base (srt ps) s" by (simp add: sjf_p_inv_def)
  show "map static_fields (snd r) = map static_fields (srt ps)"
    using base by (simp add: r snd_calculate_metrics sjf_base_def comp_def)
  assume "p \<in> set (snd r)"
  then obtain i where i: "i < length (procs s)" and p: "p = set_derived_times (procs s ! i)"
    by (auto simp: r snd_calculate_metrics in_set_conv_nth)
  with base have i': "i < length (srt ps)" by (simp add: sjf_base_def)
  with sjf_all_completed [OF base fin] have "is_completed s ! i" by simp
  with inv i' show "remaining_time p = 0"
    by (simp add: p sjf_p_inv_def)
qed

subsection \<open>Termination of the SJF loops\<close>

lemma idle_then_found:
  assumes opn: "\<exists>j<length ps. \<not> done ! j"
    and range: "\<forall>j<length ps. \<not> done ! j \<longrightarrow> arrival_time (ps ! j) \<le> INT_MAX \<and> key (ps ! j) < INT_MAX"
  shows "find_shortest key ps done (find_next_arrival ps done) \<noteq> - 1"
proof -
  let ?m = "find_next_arrival ps done"
  have "\<exists>j<length ps. \<not> done ! j \<and> arrival_time (ps ! j) = ?m"
  proof (cases "?m = INT_MAX")
    case True
    from opn obtain j where j: "j < length ps" "\<not> done ! j" by blast
    with find_next_arrival_props(2) [of j ps "done"] range True
    have "arrival_time (ps ! j) = ?m" by fastforce
    with j show ?thesis by blast
  next
    case False
    with find_next_arrival_props(3) [of ps "done"] show ?thesis by simp
  qed
  then obtain j where j: "j < length ps" "\<not> done ! j" "arrival_time (ps ! j) = ?m" by blast
  then have "eligible ps done ?m j" by (simp add: eligible_def)
  moreover from range j have "key (ps ! j) < INT_MAX" by simp
  ultimately show ?thesis using j(1) by (rule find_shortest_exists [rotated])
qed

lemma static_below_int_max:
  assumes "map static_fields ps = map static_fields ps0" "\<forall>p\<in>set ps0. below_int_max p"
    "j < length ps0"
  shows "arrival_time (ps ! j) \<le> INT_MAX \<and> burst_time (ps ! j) < INT_MAX"
  using static_fields_nth [OF assms(1,3)] assms(2,3) by (simp add: below_int_max_def)

lemma sjf_np_terminates:
  assumes range: "\<forall>p\<in>set ps0. below_int_max p"
  shows "\<exists>s. while_loop sjf_running sjf_np_body (sjf_init ps0) = Some s"
proof (rule while_loop_terminates
    [where I = "sjf_np_inv ps0"
       and r = "measures [\<lambda>s. length (procs s) - completed s, sjf_idle burst_time]"])
  show "wf (measures [\<lambda>s. length (procs s) - completed s, sjf_idle burst_time])" by simp
  show "sjf_np_inv ps0 (sjf_init ps0)" by (rule sjf_np_inv_init)
next
  fix s s'
  assume inv: "sjf_np_inv ps0 s" and run: "sjf_running s" and body: "sjf_np_body s = Continue s'"
  from inv have base: "sjf_base ps0 s" by (simp add: sjf_np_inv_def)
  have "(s', s) \<in> measures [\<lambda>s. length (procs s) - completed s, sjf_idle burst_time]"
  proof (cases "find_shortest burst_time (procs s) (is_completed s) (current_time s) = - 1")
    case True
    from sjf_np_body_idle [OF True] body
    have s': "s' = s\<lparr>current_time := find_next_arrival (procs s) (is_completed s)\<rparr>" by simp
    have "\<exists>j<length (procs s). \<not> is_completed s ! j"
      using base run count_done_open [of "is_completed s"]
      by (simp add: sjf_base_def sjf_running_def)
    moreover have "\<forall>j<length (procs s). \<not> is_completed s ! j \<longrightarrow>
        arrival_time (procs s ! j) \<le> INT_MAX \<and> burst_time (procs s ! j) < INT_MAX"
      using base range static_below_int_max [of "procs s" ps0] by (simp add: sjf_base_def)
    ultimately have "find_shortest burst_time (procs s) (is_completed s)
        (find_next_arrival (procs s) (is_completed s)) \<noteq> - 1"
      by (rule idle_then_found)
    with True show ?thesis by (simp add: s' sjf_idle_def)
  next
    case False
    define i where "i = nat (find_shortest burst_time (procs s) (is_completed s) (current_time s))"
    note fs = find_shortest_some [OF False, folded i_def]
    from sjf_np_body_dispatch [OF fs(1)] body
    have "completed s' = completed s + 1" "length (procs s') = length (procs s)" by auto
    with run have "length (procs s') - completed s' < length (procs s) - completed s"
      by (simp add: sjf_running_def)
    then show ?thesis by simp
  qed
  with inv body show "sjf_np_inv ps0 s' \<and>
      (s', s) \<in> measures [\<lambda>s. length (procs s) - completed s, sjf_idle burst_time]"
    by (simp add: sjf_np_inv_step)
qed

lemma remaining_work_update:
  assumes "i < length ps" "0 < remaining_time (ps ! i)" "remaining_time p < remaining_time (ps ! i)"
  shows "remaining_work (ps[i := p]) < remaining_work ps"
proof -
  let ?f = "\<lambda>p. nat (remaining_time p)"
  have "sum_list ((map ?f ps)[i := ?f p]) = sum_list (map ?f ps) + ?f p - map ?f ps ! i"
    using assms(1) by (simp add: sum_list_update)
  moreover have "map ?f ps ! i \<le> sum_list (map ?f ps)"
    using assms(1) by (simp add: member_le_sum_list)
  moreover have "?f p < map ?f ps ! i" using assms by simp
  ultimately show ?thesis by (simp add: remaining_work_def map_update)
qed

lemma sjf_p_terminates:
  assumes range: "\<forall>p\<in>set ps0. below_int_max p" and wf: "\<forall>p\<in>set ps0. well_formed p"
  shows "\<exists>s. while_loop sjf_running sjf_p_body (sjf_init ps0) = Some s"
proof (rule while_loop_terminates
    [where I = "sjf_p_inv ps0"
       and r = "measures [\<lambda>s. remaining_work (procs s), sjf_idle remaining_time]"])
  show "wf (measures [\<lambda>s. remaining_work (procs s), sjf_idle remaining_time])" by simp
  show "sjf_p_inv ps0 (sjf_init ps0)" using wf by (rule sjf_p_inv_init)
next
  fix s s'
  assume inv: "sjf_p_inv ps0 s" and run: "sjf_running s" and body: "sjf_p_body s = Continue s'"
  from inv have base: "sjf_base ps0 s" by (simp add: sjf_p_inv_def)
  have "(s', s) \<in> measures [\<lambda>s. remaining_work (procs s), sjf_idle remaining_time]"
  proof (cases "find_shortest remaining_time (procs s) (is_completed s) (current_time s) = - 1")
    case True
    from sjf_p_body_idle [OF True] body
    have s': "s' = s\<lparr>current_time := find_next_arrival (procs s) (is_completed s)\<rparr>" by simp
    have "\<exists>j<length (procs s). \<not> is_completed s ! j"
      using base run count_done_open [of "is_completed s"]
      by (simp add: sjf_base_def sjf_running_def)
    moreover have "\<forall>j<length (procs s). \<not> is_completed s ! j \<longrightarrow>
        arrival_time (procs s ! j) \<le> INT_MAX \<and> remaining_time (procs s ! j) < INT_MAX"
    proof (intro allI impI)
      fix j assume j: "j < length (procs s)" "\<not> is_completed s ! j"
      with base have j0: "j < length ps0" by (simp add: sjf_base_def)
      from base have "map static_fields (procs s) = map static_fields ps0" by (simp add: sjf_base_def)
      from static_below_int_max [OF this range j0]
      have "arrival_time (procs s ! j) \<le> INT_MAX" "burst_time (procs s ! j) < INT_MAX" by simp_all
      moreover from inv j0 j(2) have "remaining_time (procs s ! j) \<le> burst_time (procs s ! j)"
        by (simp add: sjf_p_inv_def)
      ultimately show "arrival_time (procs s ! j) \<le> INT_MAX \<and> remaining_time (procs s ! j) < INT_MAX"
        by simp
    qed
    ultimately have "find_shortest remaining_time (procs s) (is_completed s)
        (find_next_arrival (procs s) (is_completed s)) \<noteq> - 1"
      by (rule idle_then_found)
    with True show ?thesis by (simp add: s' sjf_idle_def)
  next
    case False
    define i where "i = nat (find_shortest remaining_time (procs s) (is_completed s) (current_time s))"
    note fs = find_shortest_some [OF False, folded i_def]
    note s' = sjf_p_body_dispatch(1,3) [OF fs(1) body fs(2)]
    from fs(3) have nd: "\<not> is_completed s ! i" by (simp add: eligible_def)
    with inv fs(2) base have rem: "0 < remaining_time (procs s ! i)"
      "remaining_time (procs s ! i) \<le> burst_time (procs s ! i)"
      by (simp_all add: sjf_p_inv_def sjf_base_def)
    from base fs(2) have "map static_fields (procs s) = map static_fields ps0" "i < length ps0"
      by (simp_all add: sjf_base_def)
    from static_below_int_max [OF this(1) range this(2)]
    have "burst_time (procs s ! i) < INT_MAX" by simp
    with rem have "wrap_int (remaining_time (procs s ! i) - 1) = remaining_time (procs s ! i) - 1"
      by (intro wrap_int_nonneg) simp_all
    with s'(2) have "remaining_time (procs s' ! i) < remaining_time (procs s ! i)"
      by simp
    with rem(1) have "remaining_work ((procs s)[i := procs s' ! i]) < remaining_work (procs s)"
      using fs(2) by (simp add: remaining_work_update)
    with s'(1) show ?thesis by simp
  qed
  with inv body wf show "sjf_p_inv ps0 s' \<and>
      (s', s) \<in> measures [\<lambda>s. remaining_work (procs s), sjf_idle remaining_time]"
    by (simp add: sjf_p_inv_step)
qed

subsection \<open>The circular buffer implements a FIFO list\<close>

lemma length_queue_list [simp]: "length (queue_list q) = size' q"
  by (simp add: queue_list_def)

lemma is_empty_queue_list: "is_empty q \<longleftrightarrow> queue_list q = []"
  by (simp add: is_empty_def queue_list_def)

lemma create_queue_ok:
  "0 < cap \<Longrightarrow> wf_queue (create_queue cap)"
  "queue_list (create_queue cap) = []"
  "capacity (create_queue cap) = cap"
  by (simp_all add: wf_queue_def create_queue_def queue_list_def)

lemma mod_add_diff:
  fixes c :: nat
  assumes "k < m" "m < c"
  shows "(f + k) mod c \<noteq> (f + m) mod c"
proof
  assume "(f + k) mod c = (f + m) mod c"
  then have "c dvd (f + m) - (f + k)"
    using assms by (metis mod_eq_dvd_iff_nat add_le_cancel_left less_imp_le)
  then have "c dvd m - k" by simp
  moreover have "0 < m - k" "m - k < c" using assms by simp_all
  ultimately show False by (meson dvd_imp_le not_less)
qed

lemma enqueue_ok:
  assumes wf: "wf_queue q" and room: "size' q < capacity q"
  shows "wf_queue (snd (enqueue q v))"
    and "queue_list (snd (enqueue q v)) = queue_list q @ [v]"
    and "capacity (snd (enqueue q v)) = capacity q"
proof -
  let ?c = "capacity q"
  let ?r = "(rear q + 1) mod int ?c"
  from wf have c: "0 < ?c" and len: "length (data q) = ?c" and fr: "front q < ?c"
    and r: "?r = int ((front q + size' q) mod ?c)"
    by (simp_all add: wf_queue_def)
  from room have nf: "\<not> is_full q" by (simp add: is_full_def)
  have q': "snd (enqueue q v) = q\<lparr>rear := ?r, data := (data q)[nat ?r := v], size' := size' q + 1\<rparr>"
    using nf by (simp add: enqueue_def Let_def)
  have nr: "nat ?r = (front q + size' q) mod ?c" using r by simp
  show "capacity (snd (enqueue q v)) = capacity q" by (simp add: q')
  have "(?r + 1) mod int ?c = int ((front q + (size' q + 1)) mod ?c)"
    unfolding r by (simp add: zmod_int mod_simps add_ac)
  moreover have "- 1 \<le> ?r" using c by (simp add: order_trans [OF _ pos_mod_sign])
  ultimately show "wf_queue (snd (enqueue q v))"
    using c len fr room by (simp add: q' wf_queue_def)
  have "data (snd (enqueue q v)) ! ((front q + k) mod ?c) = data q ! ((front q + k) mod ?c)"
    if "k < size' q" for k
    using that room mod_add_diff [of k "size' q" ?c "front q"] by (simp add: q' nr)
  moreover have "data (snd (enqueue q v)) ! ((front q + size' q) mod ?c) = v"
    using c len by (simp add: q' nr)
  ultimately show "queue_list (snd (enqueue q v)) = queue_list q @ [v]"
    by (simp add: queue_list_def) (simp add: q')
qed

lemma dequeue_ok:
  assumes wf: "wf_queue q" and ne: "queue_list q \<noteq> []"
  shows "\<exists>q'. dequeue q = Some (hd (queue_list q), q') \<and> wf_queue q'
           \<and> queue_list q' = tl (queue_list q) \<and> capacity q' = capacity q"
proof -
  let ?c = "capacity q"
  let ?q' = "q\<lparr>front := (front q + 1) mod ?c, size' := size' q - 1\<rparr>"
  from wf have c: "0 < ?c" and len: "length (data q) = ?c" and fr: "front q < ?c"
    and r: "(rear q + 1) mod int ?c = int ((front q + size' q) mod ?c)"
    and sz: "size' q \<le> ?c" and rr: "- 1 \<le> rear q"
    by (simp_all add: wf_queue_def)
  from ne have pos: "0 < size' q" by (simp add: queue_list_def)
  then have "hd (queue_list q) = data q ! front q"
    using fr by (simp add: queue_list_def hd_map upt_conv_Cons)
  with pos have "dequeue q = Some (hd (queue_list q), ?q')"
    by (simp add: dequeue_def is_empty_def)
  moreover have "((front q + 1) mod ?c + (size' q - 1)) mod ?c = (front q + size' q) mod ?c"
  proof -
    have "((front q + 1) mod ?c + (size' q - 1)) mod ?c = ((front q + 1) + (size' q - 1)) mod ?c"
      by (rule mod_add_left_eq)
    also have "(front q + 1) + (size' q - 1) = front q + size' q" using pos by simp
    finally show ?thesis .
  qed
  with c r sz rr have "wf_queue ?q'" by (simp add: wf_queue_def len)
  moreover have "queue_list ?q' = tl (queue_list q)"
  proof -
    have "queue_list ?q' = map (\<lambda>k. data q ! ((front q + Suc k) mod ?c)) [0..<size' q - 1]"
      by (simp add: queue_list_def mod_simps)
    also have "\<dots> = map (\<lambda>k. data q ! ((front q + k) mod ?c)) (map Suc [0..<size' q - 1])"
      by (simp add: comp_def)
    also have "map Suc [0..<size' q - 1] = tl [0..<size' q]"
      using pos by (simp add: map_Suc_upt upt_conv_Cons)
    finally have "queue_list ?q' = map (\<lambda>k. data q ! ((front q + k) mod ?c)) (tl [0..<size' q])" .
    then show ?thesis by (simp only: queue_list_def map_tl)
  qed
  ultimately show ?thesis by auto
qed

declare admit_arrivals.simps [simp del]

subsection \<open>Admitting arrivals\<close>

lemma admit_arrivals_unfold:
  "admit_arrivals s = (if has_arrived s then admit_arrivals (admit_one s) else s)"
  by (subst admit_arrivals.simps) (simp add: has_arrived_def admit_one_def)

lemma admit_arrivals_induct [consumes 0, case_names stop go]:
  assumes "\<And>s. \<not> has_arrived s \<Longrightarrow> P s s"
    and "\<And>s. has_arrived s \<Longrightarrow> P (admit_one s) (admit_arrivals (admit_one s)) \<Longrightarrow>
           P s (admit_arrivals (admit_one s))"
  shows "P s (admit_arrivals s)"
proof (induction s rule: admit_arrivals.induct)
  case (1 s)
  show ?case
  proof (cases "has_arrived s")
    case False
    with assms(1) show ?thesis by (simp add: admit_arrivals_unfold [of s])
  next
    case True
    then have "P (admit_one s) (admit_arrivals (admit_one s))"
      using "1.IH" by (simp add: has_arrived_def admit_one_def)
    with assms(2) True show ?thesis by (simp add: admit_arrivals_unfold [of s])
  qed
qed

lemma admit_one_simps [simp]:
  "procs (admit_one s) = procs s"
  "current_time (admit_one s) = current_time s"
  "completed (admit_one s) = completed s"
  "next_arrival_idx (admit_one s) = Suc (next_arrival_idx s)"
  "ready_queue (admit_one s) = snd (enqueue (ready_queue s) (next_arrival_idx s))"
  by (simp_all add: admit_one_def)

lemma admit_arrivals_frame [simp]:
  "procs (admit_arrivals s) = procs s \<and> current_time (admit_arrivals s) = current_time s
   \<and> completed (admit_arrivals s) = completed s"
  by (rule admit_arrivals_induct
      [where P = "\<lambda>s t. procs t = procs s \<and> current_time t = current_time s \<and> completed t = completed s"])
     simp_all

lemma admit_arrivals_mono: "next_arrival_idx s \<le> next_arrival_idx (admit_arrivals s)"
  by (rule admit_arrivals_induct [where P = "\<lambda>s t. next_arrival_idx s \<le> next_arrival_idx t"])
     simp_all

lemma admit_arrivals_bound:
  "next_arrival_idx s \<le> length (procs s) \<Longrightarrow> next_arrival_idx (admit_arrivals s) \<le> length (procs s)"
  by (rule admit_arrivals_induct
      [where P = "\<lambda>s t. next_arrival_idx s \<le> length (procs s) \<longrightarrow> next_arrival_idx t \<le> length (procs s)",
        rule_format])
     (simp_all add: has_arrived_def)

lemma admit_arrivals_arrived:
  assumes "next_arrival_idx s \<le> i" "i < next_arrival_idx (admit_arrivals s)"
  shows "arrival_time (procs s ! i) \<le> current_time s"
proof -
  let ?P = "\<lambda>s t. \<forall>i. next_arrival_idx s \<le> i \<longrightarrow> i < next_arrival_idx t \<longrightarrow>
          arrival_time (procs s ! i) \<le> current_time s"
  have "?P s (admit_arrivals s)"
  proof (rule admit_arrivals_induct)
    fix s :: rr_state
    show "?P s s" by simp
  next
    fix s
    assume go: "has_arrived s" and IH: "?P (admit_one s) (admit_arrivals (admit_one s))"
    show "?P s (admit_arrivals (admit_one s))"
    proof (intro allI impI)
      fix i assume i: "next_arrival_idx s \<le> i" "i < next_arrival_idx (admit_arrivals (admit_one s))"
      show "arrival_time (procs s ! i) \<le> current_time s"
      proof (cases "i = next_arrival_idx s")
        case True
        with go show ?thesis by (simp add: has_arrived_def)
      next
        case False
        with i have "next_arrival_idx (admit_one s) \<le> i" by simp
        with IH i(2) show ?thesis by fastforce
      qed
    qed
  qed
  with assms show ?thesis by blast
qed

lemma admit_arrivals_stops:
  "next_arrival_idx (admit_arrivals s) < length (procs s) \<Longrightarrow>
     current_time s < arrival_time (procs s ! next_arrival_idx (admit_arrivals s))"
  by (rule admit_arrivals_induct
      [where P = "\<lambda>s t. next_arrival_idx t < length (procs s) \<longrightarrow>
          current_time s < arrival_time (procs s ! next_arrival_idx t)", rule_format])
     (auto simp: has_arrived_def)

lemma admit_arrivals_queue:
  assumes "wf_queue (ready_queue s)"
    and "size' (ready_queue s) + (length (procs s) - next_arrival_idx s) \<le> capacity (ready_queue s)"
  shows "wf_queue (ready_queue (admit_arrivals s))"
    and "capacity (ready_queue (admit_arrivals s)) = capacity (ready_queue s)"
    and "queue_list (ready_queue (admit_arrivals s))
           = queue_list (ready_queue s) @ [next_arrival_idx s..<next_arrival_idx (admit_arrivals s)]"
proof -
  let ?P = "\<lambda>s t. wf_queue (ready_queue s) \<longrightarrow>
         size' (ready_queue s) + (length (procs s) - next_arrival_idx s) \<le> capacity (ready_queue s) \<longrightarrow>
         wf_queue (ready_queue t) \<and> capacity (ready_queue t) = capacity (ready_queue s)
         \<and> queue_list (ready_queue t) = queue_list (ready_queue s) @ [next_arrival_idx s..<next_arrival_idx t]"
  have "?P s (admit_arrivals s)"
  proof (rule admit_arrivals_induct)
    fix s :: rr_state
    show "?P s s" by simp
  next
    fix s
    assume go: "has_arrived s" and IH: "?P (admit_one s) (admit_arrivals (admit_one s))"
    show "?P s (admit_arrivals (admit_one s))"
    proof (intro impI)
      assume wf: "wf_queue (ready_queue s)"
        and cap: "size' (ready_queue s) + (length (procs s) - next_arrival_idx s)
                    \<le> capacity (ready_queue s)"
      from go cap have room: "size' (ready_queue s) < capacity (ready_queue s)"
        unfolding has_arrived_def by linarith
      note enq = enqueue_ok [OF wf room, of "next_arrival_idx s"]
      have sz: "size' (snd (enqueue (ready_queue s) (next_arrival_idx s))) = size' (ready_queue s) + 1"
        using enq(2) by (metis length_queue_list length_append_singleton Suc_eq_plus1)
      have "wf_queue (ready_queue (admit_one s))" using enq(1) by simp
      moreover have "size' (ready_queue (admit_one s))
          + (length (procs (admit_one s)) - next_arrival_idx (admit_one s))
          \<le> capacity (ready_queue (admit_one s))"
        using go cap sz enq(3) unfolding has_arrived_def by simp linarith
      ultimately have *: "wf_queue (ready_queue (admit_arrivals (admit_one s)))"
        "capacity (ready_queue (admit_arrivals (admit_one s))) = capacity (ready_queue (admit_one s))"
        "queue_list (ready_queue (admit_arrivals (admit_one s)))
           = queue_list (ready_queue (admit_one s))
             @ [next_arrival_idx (admit_one s)..<next_arrival_idx (admit_arrivals (admit_one s))]"
        using IH by simp_all
      have "next_arrival_idx s < next_arrival_idx (admit_arrivals (admit_one s))"
        using admit_arrivals_mono [of "admit_one s"] by simp
      with * enq show "wf_queue (ready_queue (admit_arrivals (admit_one s))) \<and>
        capacity (ready_queue (admit_arrivals (admit_one s))) = capacity (ready_queue s) \<and>
        queue_list (ready_queue (admit_arrivals (admit_one s))) =
        queue_list (ready_queue s) @ [next_arrival_idx s..<next_arrival_idx (admit_arrivals (admit_one s))]"
        by (simp add: upt_conv_Cons)
    qed
  qed
  with assms show "wf_queue (ready_queue (admit_arrivals s))"
    and "capacity (ready_queue (admit_arrivals s)) = capacity (ready_queue s)"
    and "queue_list (ready_queue (admit_arrivals s))
           = queue_list (ready_queue s) @ [next_arrival_idx s..<next_arrival_idx (admit_arrivals s)]"
    by simp_all
qed

subsection \<open>One iteration of the round-robin loop\<close>

lemma run_slice_simps [simp]:
  "static_fields (run_slice tq t p) = static_fields p"
  "arrival_time (run_slice tq t p) = arrival_time p"
  "burst_time (run_slice tq t p) = burst_time p"
  "remaining_time (run_slice tq t p) = wrap_int (remaining_time p - execution_time tq p)"
  "completion_time (run_slice tq t p) = completion_time p"
  by (simp_all add: run_slice_def static_fields_def)

lemma rr_body_idle:
  assumes "queue_list (ready_queue (admit_arrivals s)) = []"
    and "next_arrival_idx (admit_arrivals s) < length (procs s)"
  shows "rr_body tq s = Continue ((admit_arrivals s)
           \<lparr>current_time := arrival_time (procs s ! next_arrival_idx (admit_arrivals s))\<rparr>)"
  using assms by (simp add: rr_body_def Let_def is_empty_queue_list)

lemma rr_body_break:
  assumes "queue_list (ready_queue (admit_arrivals s)) = []"
    and "\<not> next_arrival_idx (admit_arrivals s) < length (procs s)"
  shows "rr_body tq s = Break (admit_arrivals s)"
  using assms by (simp add: rr_body_def Let_def is_empty_queue_list)

lemma rr_ok_admit:
  assumes "rr_ok s"
  shows "wf_queue (ready_queue (admit_arrivals s))"
    and "capacity (ready_queue (admit_arrivals s)) = capacity (ready_queue s)"
    and "queue_list (ready_queue (admit_arrivals s))
           = queue_list (ready_queue s) @ [next_arrival_idx s..<next_arrival_idx (admit_arrivals s)]"
    and "next_arrival_idx (admit_arrivals s) \<le> length (procs s)"
    and "rr_ok (admit_arrivals s)"
proof -
  from assms have cap: "size' (ready_queue s) + (length (procs s) - next_arrival_idx s) \<le> capacity (ready_queue s)"
    unfolding rr_ok_def by linarith
  from assms have wf: "wf_queue (ready_queue s)"
    and nx: "next_arrival_idx s \<le> length (procs s)"
    and sz: "size' (ready_queue s) \<le> next_arrival_idx s"
    and n: "length (procs s) \<le> capacity (ready_queue s)"
    by (simp_all add: rr_ok_def)
  note q = admit_arrivals_queue [OF wf cap]
  show "wf_queue (ready_queue (admit_arrivals s))"
    and "capacity (ready_queue (admit_arrivals s)) = capacity (ready_queue s)"
    and "queue_list (ready_queue (admit_arrivals s))
           = queue_list (ready_queue s) @ [next_arrival_idx s..<next_arrival_idx (admit_arrivals s)]"
    by (rule q)+
  show b: "next_arrival_idx (admit_arrivals s) \<le> length (procs s)"
    using nx by (rule admit_arrivals_bound)
  have "size' (ready_queue (admit_arrivals s))
      = size' (ready_queue s) + (next_arrival_idx (admit_arrivals s) - next_arrival_idx s)"
    using q(3) by (metis length_queue_list length_append length_upt)
  with sz admit_arrivals_mono [of s]
  have "size' (ready_queue (admit_arrivals s)) \<le> next_arrival_idx (admit_arrivals s)" by simp
  with q(1,2) n b show "rr_ok (admit_arrivals s)" by (simp add: rr_ok_def)
qed


lemma arrival_time_update_same:
  "arrival_time p = arrival_time (ps ! i) \<Longrightarrow> arrival_time (ps[i := p] ! j) = arrival_time (ps ! j)"
  by (cases "i < length ps") (auto simp: nth_list_update list_update_beyond)

lemma rr_body_dispatch:
  fixes tq :: int
  assumes ok: "rr_ok s" and ne: "queue_list (ready_queue (admit_arrivals s)) \<noteq> []"
  defines "idx \<equiv> hd (queue_list (ready_queue (admit_arrivals s)))"
  defines "p2 \<equiv> run_slice tq (current_time s) (procs s ! idx)"
    and "t' \<equiv> wrap_int (current_time s + execution_time tq (procs s ! idx))"
  shows "\<exists>s'. rr_body tq s = Continue s' \<and> current_time s' = t' \<and> rr_ok s'
           \<and> length (procs s') = length (procs s)
           \<and> next_arrival_idx (admit_arrivals s) \<le> next_arrival_idx s'
           \<and> (\<forall>i. next_arrival_idx (admit_arrivals s) \<le> i \<and> i < next_arrival_idx s' \<longrightarrow>
                  arrival_time (procs s ! i) \<le> t')
           \<and> (next_arrival_idx s' < length (procs s) \<longrightarrow>
                  t' < arrival_time (procs s ! next_arrival_idx s'))
           \<and> (if remaining_time p2 = 0
               then procs s' = (procs s)[idx := p2\<lparr>completion_time := t'\<rparr>]
                  \<and> completed s' = completed s + 1
                  \<and> queue_list (ready_queue s') =
                      tl (queue_list (ready_queue (admit_arrivals s)))
                      @ [next_arrival_idx (admit_arrivals s)..<next_arrival_idx s']
               else procs s' = (procs s)[idx := p2]
                  \<and> completed s' = completed s
                  \<and> queue_list (ready_queue s') =
                      tl (queue_list (ready_queue (admit_arrivals s)))
                      @ [next_arrival_idx (admit_arrivals s)..<next_arrival_idx s'] @ [idx])"
proof -
  let ?s1 = "admit_arrivals s"
  let ?n = "length (procs s)"
  note a = rr_ok_admit [OF ok]
  from a(5) have ok1: "size' (ready_queue ?s1) \<le> next_arrival_idx ?s1"
    "?n \<le> capacity (ready_queue ?s1)"
    by (simp_all add: rr_ok_def)
  from ne have pos1: "0 < size' (ready_queue ?s1)"
    by (metis length_queue_list length_greater_0_conv)
  from dequeue_ok [OF a(1) ne] obtain q
    where dq: "dequeue (ready_queue ?s1) = Some (idx, q)" and wfq: "wf_queue q"
      and ql: "queue_list q = tl (queue_list (ready_queue ?s1))"
      and capq: "capacity q = capacity (ready_queue ?s1)"
    unfolding idx_def by blast
  have szq: "size' q = size' (ready_queue ?s1) - 1"
    using ql by (metis length_queue_list length_tl)
  define mid where "mid = ?s1\<lparr>procs := (procs ?s1)[idx := p2], current_time := t', ready_queue := q\<rparr>"
  define s2 where "s2 = admit_arrivals mid"
  have mid: "procs mid = (procs s)[idx := p2]" "current_time mid = t'" "ready_queue mid = q"
    "next_arrival_idx mid = next_arrival_idx ?s1" "completed mid = completed s"
    by (simp_all add: mid_def)
  have body: "rr_body tq s =
      (if remaining_time p2 = 0
       then Continue (s2\<lparr>procs := (procs s2)[idx := p2\<lparr>completion_time := current_time s2\<rparr>],
              completed := completed s2 + 1\<rparr>)
       else Continue (s2\<lparr>ready_queue := snd (enqueue (ready_queue s2) idx)\<rparr>))"
    using ne dq
    by (simp add: rr_body_def Let_def is_empty_queue_list s2_def mid_def p2_def t'_def
        run_slice_def execution_time_def)
  have arr: "arrival_time (procs mid ! i) = arrival_time (procs s ! i)" for i
    unfolding mid(1) by (rule arrival_time_update_same) (simp add: p2_def)
  have wfm: "wf_queue (ready_queue mid)" using wfq by (simp add: mid)
  have capm: "size' (ready_queue mid) + (length (procs mid) - next_arrival_idx mid)
      \<le> capacity (ready_queue mid)"
    using ok1 pos1 a(4) by (simp add: mid szq capq)
  note q2 = admit_arrivals_queue [OF wfm capm, folded s2_def]
  have s2: "procs s2 = (procs s)[idx := p2]" "current_time s2 = t'" "completed s2 = completed s"
    by (simp_all add: s2_def mid)
  have nx2: "next_arrival_idx ?s1 \<le> next_arrival_idx s2"
    using admit_arrivals_mono [of mid] by (simp add: s2_def mid)
  have b2: "next_arrival_idx s2 \<le> ?n"
    using admit_arrivals_bound [of mid] a(4) by (simp add: s2_def mid)
  have arrived: "arrival_time (procs s ! i) \<le> t'"
    if "next_arrival_idx ?s1 \<le> i" "i < next_arrival_idx s2" for i
    using admit_arrivals_arrived [of mid i] that by (simp add: s2_def [symmetric] mid(2,4) arr)
  have stops: "t' < arrival_time (procs s ! next_arrival_idx s2)"
    if "next_arrival_idx s2 < ?n"
    using admit_arrivals_stops [of mid] that arr [of "next_arrival_idx s2"]
    by (simp add: s2_def [symmetric] mid(2)) (simp add: mid(1))
  have ql2: "queue_list (ready_queue s2) =
      tl (queue_list (ready_queue ?s1)) @ [next_arrival_idx ?s1..<next_arrival_idx s2]"
    using q2(3) by (simp add: mid ql)
  have sz2: "size' (ready_queue s2) = size' (ready_queue ?s1) - 1 + (next_arrival_idx s2 - next_arrival_idx ?s1)"
    using ql2 by (metis length_queue_list length_append length_upt length_tl)
  have cap2: "capacity (ready_queue s2) = capacity (ready_queue ?s1)"
    using q2(2) by (simp add: mid capq)
  have lt2: "size' (ready_queue s2) < next_arrival_idx s2"
    using sz2 ok1 pos1 nx2 by linarith
  show ?thesis
  proof (cases "remaining_time p2 = 0")
    case True
    let ?s' = "s2\<lparr>procs := (procs s2)[idx := p2\<lparr>completion_time := current_time s2\<rparr>],
              completed := completed s2 + 1\<rparr>"
    have "rr_body tq s = Continue ?s'" using body True by simp
    moreover have "rr_ok ?s'"
      using q2(1) cap2 ok1 lt2 b2 by (simp add: rr_ok_def s2)
    moreover have "procs ?s' = (procs s)[idx := p2\<lparr>completion_time := t'\<rparr>]"
      by (simp add: s2)
    ultimately show ?thesis
      using True nx2 arrived stops ql2 by (intro exI [of _ ?s']) (simp add: s2)
  next
    case False
    let ?s' = "s2\<lparr>ready_queue := snd (enqueue (ready_queue s2) idx)\<rparr>"
    have room: "size' (ready_queue s2) < capacity (ready_queue s2)"
      using lt2 b2 ok1 cap2 by linarith
    note enq = enqueue_ok [OF q2(1) room, of idx]
    have sz': "size' (snd (enqueue (ready_queue s2) idx)) = size' (ready_queue s2) + 1"
      using enq(2) by (metis length_queue_list length_append_singleton Suc_eq_plus1)
    have "rr_body tq s = Continue ?s'" using body False by simp
    moreover have "rr_ok ?s'"
      using enq cap2 ok1 lt2 b2 sz' by (simp add: rr_ok_def s2)
    ultimately show ?thesis
      using False nx2 arrived stops ql2 enq(2) by (intro exI [of _ ?s']) (simp add: s2)
  qed
qed

subsection \<open>The invariant of the round-robin loop\<close>

lemma queue_capacity_fits: "queue_fits ps \<Longrightarrow> queue_capacity ps = int (length ps) * 100"
  unfolding queue_capacity_def queue_fits_def by (rule wrap_int_nonneg) simp_all

lemma queue_fits_mset: "mset qs = mset ps \<Longrightarrow> queue_fits qs = queue_fits ps"
  unfolding queue_fits_def by (metis size_mset)

lemma queue_fits_scenario: "queue_fits scenario"
  by (simp add: queue_fits_def scenario_def INT_MAX_def)

lemma rr_schedule_fits:
  assumes "queue_fits (srt ps)"
  shows "rr_schedule srt ps tq =
     (case while_loop rr_running (rr_body tq) (rr_init (srt ps)) of
        None \<Rightarrow> None
      | Some s \<Rightarrow> Some (calculate_metrics (procs s)))"
  using queue_capacity_fits [OF assms] by (simp add: rr_schedule_def Let_def)

lemma rr_schedule_unallocated:
  "queue_capacity (srt ps) < 0 \<Longrightarrow> rr_schedule srt ps tq = Some (empty_metrics, srt ps)"
  by (simp add: rr_schedule_def Let_def)

lemma rr_init_ok:
  assumes "ps0 \<noteq> []" "queue_fits ps0"
  shows "rr_ok (rr_init ps0)" and "ready_list (rr_init ps0) = []"
proof -
  have cap: "nat (queue_capacity ps0) = length ps0 * 100"
    using queue_capacity_fits [OF assms(2)] by (simp add: nat_mult_distrib)
  show "rr_ok (rr_init ps0)"
    using assms(1) by (simp add: rr_ok_def rr_init_def cap create_queue_ok)
       (simp add: create_queue_def)
  show "ready_list (rr_init ps0) = []"
    by (simp add: rr_init_def create_queue_ok ready_list_def)
qed

lemma rr_inv_init:
  assumes "ps0 \<noteq> []" "\<forall>p\<in>set ps0. well_formed p" "queue_fits ps0"
  shows "rr_inv ps0 (rr_init ps0)"
proof -
  have "0 < remaining_time (ps0 ! i) \<and> remaining_time (ps0 ! i) \<le> INT_MAX"
    if "i < length ps0" for i
    using assms(2) that by (simp add: well_formed_def)
  then show ?thesis
    using rr_init_ok [OF assms(1,3)] by (simp add: rr_inv_def) (simp add: rr_init_def)
qed

lemma hd_tl_distinct:
  assumes "xs \<noteq> []" "distinct xs"
  shows "hd xs \<in> set xs" "hd xs \<notin> set (tl xs)" "set xs = insert (hd xs) (set (tl xs))"
  using assms by (cases xs; simp)+

lemma execution_time_bounds:
  assumes "0 < tq" "0 < remaining_time p"
  shows "0 < execution_time tq p" "execution_time tq p \<le> remaining_time p"
  using assms by (simp_all add: execution_time_def)


lemma rr_inv_step:
  assumes inv: "rr_inv ps0 s" and tq: "0 < tq" and body: "rr_body tq s = Continue s'"
  shows "rr_inv ps0 s'"
proof -
  let ?s1 = "admit_arrivals s"
  let ?n = "length ps0"
  let ?nx = "next_arrival_idx s" and ?nx1 = "next_arrival_idx ?s1"
  let ?ql = "ready_list s" and ?ql1 = "ready_list ?s1"
  from inv have ok: "rr_ok s" and len: "length (procs s) = ?n"
    and st: "map static_fields (procs s) = map static_fields ps0"
    and dist: "distinct ?ql" and below: "\<forall>i\<in>set ?ql. i < ?nx"
    and cnt: "completed s + length ?ql = ?nx"
    and work: "\<And>i. i < ?n \<Longrightarrow> i \<in> set ?ql \<or> ?nx \<le> i \<Longrightarrow> 0 < remaining_time (procs s ! i)"
    and fin: "\<And>i. i < ?nx \<Longrightarrow> i \<notin> set ?ql \<Longrightarrow> remaining_time (procs s ! i) = 0"
    and bnd: "\<And>i. i < ?n \<Longrightarrow> remaining_time (procs s ! i) \<le> INT_MAX"
    unfolding rr_inv_def by blast+
  note a = rr_ok_admit [OF ok]
  have ql1: "?ql1 = ?ql @ [?nx..<?nx1]" using a(3) by (simp add: ready_list_def)
  have mono: "?nx \<le> ?nx1" by (rule admit_arrivals_mono)
  have nx1: "?nx1 \<le> ?n" using a(4) len by simp
  have dist1: "distinct ?ql1" using dist below by (auto simp: ql1)
  have below1: "i < ?nx1" if "i \<in> set ?ql1" for i
    using that below mono by (auto simp: ql1)
  have work1: "0 < remaining_time (procs s ! i)" if "i < ?n" "i \<in> set ?ql1 \<or> ?nx \<le> i" for i
    using that work [of i] by (auto simp: ql1)
  have fin1: "remaining_time (procs s ! i) = 0" if "i < ?nx1" "i \<notin> set ?ql1" for i
    using that fin [of i] by (auto simp: ql1)
  have cnt1: "completed s + length ?ql1 = ?nx1" using cnt mono by (simp add: ql1)
  show ?thesis
  proof (cases "?ql1 = []")
    case True
    then have e: "queue_list (ready_queue ?s1) = []" by (simp add: ready_list_def)
    from True have same: "?ql = []" "?nx1 = ?nx" using mono by (auto simp: ql1)
    show ?thesis
    proof (cases "?nx1 < length (procs s)")
      case False
      with rr_body_break [OF e False, of tq] body show ?thesis by simp
    next
      case lt: True
      from rr_body_idle [OF e lt, of tq] body
      have s': "s' = ?s1\<lparr>current_time := arrival_time (procs s ! ?nx1)\<rparr>" by simp
      have rl: "ready_list s' = []" using True by (simp add: s' ready_list_def)
      have "rr_ok s'" using a(5) by (simp add: s' rr_ok_def)
      then show ?thesis
        using len st cnt work fin same bnd
        by (simp add: rr_inv_def rl) (simp add: s')
    qed
  next
    case False
    then have ne: "queue_list (ready_queue ?s1) \<noteq> []" by (simp add: ready_list_def)
    define idx where "idx = hd ?ql1"
    define p2 where "p2 = run_slice tq (current_time s) (procs s ! idx)"
    define t' where "t' = wrap_int (current_time s + execution_time tq (procs s ! idx))"
    note hd = hd_tl_distinct [OF False dist1, folded idx_def]
    have idx1: "idx < ?nx1" using hd(1) below1 by simp
    then have idxn: "idx < ?n" using nx1 by simp
    have pos: "0 < remaining_time (procs s ! idx)" using work1 [OF idxn] hd(1) by simp
    note ex = execution_time_bounds [OF tq pos]
    have "wrap_int (remaining_time (procs s ! idx) - execution_time tq (procs s ! idx))
        = remaining_time (procs s ! idx) - execution_time tq (procs s ! idx)"
      using ex bnd [OF idxn] by (intro wrap_int_nonneg) simp_all
    then have rem2: "remaining_time p2 = remaining_time (procs s ! idx) - execution_time tq (procs s ! idx)"
      by (simp add: p2_def)
    from rr_body_dispatch [OF ok ne, of tq] body
    have s': "current_time s' = t'" "rr_ok s'" "length (procs s') = length (procs s)"
      "?nx1 \<le> next_arrival_idx s'"
      "\<And>i. ?nx1 \<le> i \<Longrightarrow> i < next_arrival_idx s' \<Longrightarrow> arrival_time (procs s ! i) \<le> t'"
      "if remaining_time p2 = 0
       then procs s' = (procs s)[idx := p2\<lparr>completion_time := t'\<rparr>]
          \<and> completed s' = completed s + 1
          \<and> ready_list s' = tl ?ql1 @ [?nx1..<next_arrival_idx s']
       else procs s' = (procs s)[idx := p2]
          \<and> completed s' = completed s
          \<and> ready_list s' = tl ?ql1 @ [?nx1..<next_arrival_idx s'] @ [idx]"
      unfolding ready_list_def idx_def p2_def t'_def by auto
    let ?nx' = "next_arrival_idx s'"
    have tl_below: "i < ?nx1" if "i \<in> set (tl ?ql1)" for i
      using that below1 hd(3) by simp
    have dist_tl: "distinct (tl ?ql1 @ [?nx1..<?nx'])"
      using dist1 tl_below by (fastforce simp: distinct_tl)
    have len_tl: "length (tl ?ql1) + 1 = length ?ql1" using False by (cases ?ql1) simp_all
    have other: "procs s' ! i = procs s ! i" if "i \<noteq> idx" for i
      using s'(6) that by (auto split: if_splits)
    have static': "map static_fields (procs s') = map static_fields ps0"
    proof -
      have upd: "map static_fields ((procs s)[idx := q]) = map static_fields ps0"
        if "static_fields q = static_fields (procs s ! idx)" for q
        using st _ that by (rule static_fields_update) (simp add: len idxn)
      have "static_fields p2 = static_fields (procs s ! idx)" by (simp add: p2_def)
      moreover have "static_fields (p2\<lparr>completion_time := t'\<rparr>) = static_fields (procs s ! idx)"
        by (simp add: p2_def run_slice_def static_fields_def)
      ultimately show ?thesis
        using s'(6) upd by (cases "remaining_time p2 = 0") simp_all
    qed
    show ?thesis
    proof (cases "remaining_time p2 = 0")
      case True
      with s'(6) have pr: "procs s' = (procs s)[idx := p2\<lparr>completion_time := t'\<rparr>]"
        and c': "completed s' = completed s + 1"
        and rl: "ready_list s' = tl ?ql1 @ [?nx1..<?nx']"
        by simp_all
      have at: "procs s' ! idx = p2\<lparr>completion_time := t'\<rparr>" using pr idxn len by simp
      have mem: "i \<in> set (ready_list s') \<longleftrightarrow> (i \<in> set ?ql1 \<and> i \<noteq> idx) \<or> (?nx1 \<le> i \<and> i < ?nx')" for i
        using hd(2,3) by (auto simp: rl)
      have "rr_inv ps0 s'"
        unfolding rr_inv_def
      proof (intro conjI allI ballI impI)
        show "rr_ok s'" by (rule s'(2))
        show "length (procs s') = ?n" using s'(3) len by simp
        show "map static_fields (procs s') = map static_fields ps0" by (rule static')
        show "distinct (ready_list s')" using dist_tl by (simp add: rl)
        show "i < ?nx'" if "i \<in> set (ready_list s')" for i
          using that below1 [of i] s'(4) by (auto simp: mem)
        show "completed s' + length (ready_list s') = ?nx'"
          using c' cnt1 len_tl s'(4) by (simp add: rl)
        show "0 < remaining_time (procs s' ! i)"
          if "i < ?n" "i \<in> set (ready_list s') \<or> ?nx' \<le> i" for i
        proof -
          from that(2) idx1 s'(4) have "i \<noteq> idx" by (auto simp: mem)
          moreover from that(2) mono s'(4) have "i \<in> set ?ql1 \<or> ?nx \<le> i" by (auto simp: mem)
          ultimately show ?thesis using work1 [OF that(1)] other by simp
        qed
        show "remaining_time (procs s' ! i) = 0" if "i < ?nx'" "i \<notin> set (ready_list s')" for i
        proof (cases "i = idx")
          case True
          with at \<open>remaining_time p2 = 0\<close> show ?thesis by simp
        next
          case False
          with that have "i < ?nx1" "i \<notin> set ?ql1" by (auto simp: mem)
          with fin1 [of i] other [OF False] show ?thesis by simp
        qed
        show "remaining_time (procs s' ! i) \<le> INT_MAX" if "i < ?n" for i
          using bnd [OF that] at other [of i] \<open>remaining_time p2 = 0\<close>
          by (cases "i = idx") (simp_all add: INT_MAX_def)
      qed
      then show ?thesis .
    next
      case nz: False
      with s'(6) have pr: "procs s' = (procs s)[idx := p2]"
        and c': "completed s' = completed s"
        and rl: "ready_list s' = tl ?ql1 @ [?nx1..<?nx'] @ [idx]"
        by simp_all
      have at: "procs s' ! idx = p2" using pr idxn len by simp
      have idx': "idx < ?nx'" using idx1 s'(4) by simp
      have mem: "i \<in> set (ready_list s') \<longleftrightarrow> i \<in> set ?ql1 \<or> (?nx1 \<le> i \<and> i < ?nx')" for i
        using hd(3) by (auto simp: rl)
      have "rr_inv ps0 s'"
        unfolding rr_inv_def
      proof (intro conjI allI ballI impI)
        show "rr_ok s'" by (rule s'(2))
        show "length (procs s') = ?n" using s'(3) len by simp
        show "map static_fields (procs s') = map static_fields ps0" by (rule static')
        show "distinct (ready_list s')" using dist_tl hd(2) idx1 by (auto simp: rl)
        show "i < ?nx'" if "i \<in> set (ready_list s')" for i
          using that below1 [of i] s'(4) by (auto simp: mem)
        show "completed s' + length (ready_list s') = ?nx'"
          using c' cnt1 len_tl s'(4) by (simp add: rl)
        show "0 < remaining_time (procs s' ! i)"
          if "i < ?n" "i \<in> set (ready_list s') \<or> ?nx' \<le> i" for i
        proof (cases "i = idx")
          case True
          with at nz rem2 ex(2) show ?thesis by simp
        next
          case False
          from that(2) mono s'(4) have "i \<in> set ?ql1 \<or> ?nx \<le> i" by (auto simp: mem)
          with work1 [OF that(1)] other [OF False] show ?thesis by simp
        qed
        show "remaining_time (procs s' ! i) = 0" if "i < ?nx'" "i \<notin> set (ready_list s')" for i
        proof -
          from that hd(1) have "i \<noteq> idx" "i < ?nx1" "i \<notin> set ?ql1" by (auto simp: mem)
          with fin1 [of i] other [of i] show ?thesis by simp
        qed
        show "remaining_time (procs s' ! i) \<le> INT_MAX" if "i < ?n" for i
          using bnd [OF that] at other [of i] rem2 ex(1)
          by (cases "i = idx") simp_all
      qed
      then show ?thesis .
    qed
  qed
qed

lemma rr_dispatch_facts:
  assumes inv: "rr_inv ps0 s" and ne: "ready_list (admit_arrivals s) \<noteq> []"
  defines "idx \<equiv> hd (ready_list (admit_arrivals s))"
  shows "idx < length ps0" "0 < remaining_time (procs s ! idx)"
    "remaining_time (procs s ! idx) \<le> INT_MAX"
    "idx < next_arrival_idx (admit_arrivals s)"
proof -
  let ?s1 = "admit_arrivals s"
  from inv have ok: "rr_ok s" and len: "length (procs s) = length ps0"
    and below: "\<forall>i\<in>set (ready_list s). i < next_arrival_idx s"
    and work: "\<And>i. i < length ps0 \<Longrightarrow> i \<in> set (ready_list s) \<or> next_arrival_idx s \<le> i \<Longrightarrow>
        0 < remaining_time (procs s ! i)"
    and bnd: "\<And>i. i < length ps0 \<Longrightarrow> remaining_time (procs s ! i) \<le> INT_MAX"
    unfolding rr_inv_def by blast+
  note a = rr_ok_admit [OF ok]
  have ql1: "ready_list ?s1 = ready_list s @ [next_arrival_idx s..<next_arrival_idx ?s1]"
    using a(3) by (simp add: ready_list_def)
  have "idx \<in> set (ready_list ?s1)" using ne by (simp add: idx_def)
  then have cases: "idx \<in> set (ready_list s) \<or> (next_arrival_idx s \<le> idx \<and> idx < next_arrival_idx ?s1)"
    by (auto simp: ql1)
  with below admit_arrivals_mono [of s] show nx: "idx < next_arrival_idx ?s1" by auto
  with a(4) len show n: "idx < length ps0" by simp
  from cases work [OF n] show "0 < remaining_time (procs s ! idx)" by blast
  from bnd [OF n] show "remaining_time (procs s ! idx) \<le> INT_MAX" .
qed

lemma rr_body_Break:
  assumes ok: "rr_ok s" and body: "rr_body tq s = Break s'"
  shows "s' = admit_arrivals s" "ready_list s' = []" "length (procs s) \<le> next_arrival_idx s'"
proof -
  have e: "queue_list (ready_queue (admit_arrivals s)) = []"
  proof (rule ccontr)
    assume "queue_list (ready_queue (admit_arrivals s)) \<noteq> []"
    from rr_body_dispatch [OF ok this, of tq] body show False by auto
  qed
  have nlt: "\<not> next_arrival_idx (admit_arrivals s) < length (procs s)"
  proof
    assume "next_arrival_idx (admit_arrivals s) < length (procs s)"
    from rr_body_idle [OF e this, of tq] body show False by simp
  qed
  from rr_body_break [OF e nlt, of tq] body show s': "s' = admit_arrivals s" by simp
  from e show "ready_list s' = []" by (simp add: s' ready_list_def)
  from nlt show "length (procs s) \<le> next_arrival_idx s'" by (simp add: s')
qed

lemma rr_inv_final:
  assumes run: "while_loop rr_running (rr_body tq) (rr_init ps0) = Some s"
    and ne: "ps0 \<noteq> []" and wf: "\<forall>p\<in>set ps0. well_formed p" and tq: "0 < tq"
    and fits: "queue_fits ps0"
  shows "rr_inv ps0 s \<and> ready_list s = [] \<and> next_arrival_idx s = length ps0"
proof (rule while_loop_rule [OF run, where I = "rr_inv ps0"])
  show "rr_inv ps0 (rr_init ps0)" using ne wf fits by (rule rr_inv_init)
next
  fix s s' assume "rr_inv ps0 s" "rr_body tq s = Continue s'"
  with tq show "rr_inv ps0 s'" by (simp add: rr_inv_step [of ps0 s tq s'])
next
  fix s s' assume inv: "rr_inv ps0 s" and body: "rr_body tq s = Break s'"
  from inv have ok: "rr_ok s" by (simp add: rr_inv_def)
  note b = rr_body_Break [OF ok body]
  note a = rr_ok_admit [OF ok]
  from a(3) b(1,2) admit_arrivals_mono [of s]
  have same: "ready_list s = []" "next_arrival_idx s' = next_arrival_idx s"
    by (auto simp: ready_list_def)
  have fr: "procs s' = procs s" "current_time s' = current_time s" "completed s' = completed s"
    by (simp_all add: b(1))
  have "rr_inv ps0 s'"
    using inv a(5) same b(2) unfolding rr_inv_def fr by (simp add: b(1) [symmetric])
  moreover from inv b(3) a(4) have "next_arrival_idx s' = length ps0"
    by (simp add: rr_inv_def b(1))
  ultimately show "rr_inv ps0 s' \<and> ready_list s' = [] \<and> next_arrival_idx s' = length ps0"
    using b(2) by simp
next
  fix s assume inv: "rr_inv ps0 s" and stop: "\<not> rr_running s"
  from inv have "completed s + length (ready_list s) = next_arrival_idx s"
    "next_arrival_idx s \<le> length (procs s)" "length (procs s) = length ps0"
    by (simp_all add: rr_inv_def rr_ok_def)
  with stop have "length (ready_list s) = 0 \<and> next_arrival_idx s = length ps0"
    unfolding rr_running_def by linarith
  then have "ready_list s = [] \<and> next_arrival_idx s = length ps0" by simp
  with inv show "rr_inv ps0 s \<and> ready_list s = [] \<and> next_arrival_idx s = length ps0" by simp
qed

lemma rr_schedule_empty:
  assumes "srt ps = []"
  shows "rr_schedule srt ps tq = Some (calculate_metrics [])"
  using assms
  by (simp add: rr_schedule_def Let_def queue_capacity_def wrap_int_def while_loop_stop
      rr_running_def rr_init_def)

lemma rr_result:
  assumes run: "rr_schedule srt ps tq = Some r"
    and wf: "\<forall>p\<in>set (srt ps). well_formed p" and tq: "0 < tq"
    and fits: "queue_fits (srt ps)"
  shows "map static_fields (snd r) = map static_fields (srt ps)"
    and "p \<in> set (snd r) \<Longrightarrow> remaining_time p = 0"
proof -
  have "map static_fields (snd r) = map static_fields (srt ps) \<and>
    (p \<in> set (snd r) \<longrightarrow> remaining_time p = 0)"
  proof (cases "srt ps = []")
    case True
    with run rr_schedule_empty [of srt ps tq] show ?thesis
      by (auto simp: snd_calculate_metrics)
  next
    case False
    from run obtain s where loop: "while_loop rr_running (rr_body tq) (rr_init (srt ps)) = Some s"
      and r: "r = calculate_metrics (procs s)"
      by (auto simp: rr_schedule_fits [of srt ps, OF fits] split: option.splits)
    from rr_inv_final [OF loop False wf tq fits]
    have inv: "rr_inv (srt ps) s" and e: "ready_list s = []"
      and nx: "next_arrival_idx s = length (srt ps)"
      by simp_all
    from inv have len: "length (procs s) = length (srt ps)"
      and st: "map static_fields (procs s) = map static_fields (srt ps)"
      and fin: "\<And>i. i < next_arrival_idx s \<Longrightarrow> i \<notin> set (ready_list s) \<Longrightarrow>
        remaining_time (procs s ! i) = 0"
      unfolding rr_inv_def by blast+
    have "remaining_time p = 0" if "p \<in> set (snd r)"
    proof -
      from that obtain i where i: "i < length (procs s)" and p: "p = set_derived_times (procs s ! i)"
        by (auto simp: r snd_calculate_metrics in_set_conv_nth)
      with fin [of i] e nx len show ?thesis by simp
    qed
    with st show ?thesis by (simp add: r snd_calculate_metrics comp_def)
  qed
  then show "map static_fields (snd r) = map static_fields (srt ps)"
    and "p \<in> set (snd r) \<Longrightarrow> remaining_time p = 0"
    by simp_all
qed

subsection \<open>Static fields\<close>

lemma static_fields_update_any:
  assumes "i < length ps \<Longrightarrow> static_fields p = static_fields (ps ! i)"
  shows "map static_fields (ps[i := p]) = map static_fields ps"
proof (cases "i < length ps")
  case True
  with assms show ?thesis by (metis list_update_id map_update nth_map)
next
  case False
  then show ?thesis by (simp add: list_update_beyond)
qed

lemma sjf_p_body_static:
  assumes "sjf_p_body s = Continue s'"
  shows "map static_fields (procs s') = map static_fields (procs s)"
  using assms
  by (auto simp: sjf_p_body_def Let_def static_fields_def split: if_splits
      intro!: static_fields_update_any)

lemma rr_body_static:
  assumes "rr_body tq s = Continue s' \<or> rr_body tq s = Break s'"
  shows "map static_fields (procs s') = map static_fields (procs s)"
  using assms
  by (auto simp: rr_body_def Let_def static_fields_def split: if_splits option.splits
      intro!: static_fields_update_any)

lemma sjf_p_static:
  assumes "sjf_preemptive_schedule srt ps = Some r"
  shows "map static_fields (snd r) = map static_fields (srt ps)"
proof -
  from assms obtain s where loop: "while_loop sjf_running sjf_p_body (sjf_init (srt ps)) = Some s"
    and r: "r = calculate_metrics (procs s)"
    by (auto simp: sjf_preemptive_schedule_def split: option.splits)
  have "map static_fields (procs s) = map static_fields (srt ps)"
  proof (rule while_loop_rule [OF loop,
          where I = "\<lambda>s. map static_fields (procs s) = map static_fields (srt ps)"])
    show "map static_fields (procs (sjf_init (srt ps))) = map static_fields (srt ps)"
      by (simp add: sjf_init_def)
  next
    fix s s' assume "map static_fields (procs s) = map static_fields (srt ps)"
      "sjf_p_body s = Continue s'"
    then show "map static_fields (procs s') = map static_fields (srt ps)"
      using sjf_p_body_static [of s s'] by simp
  next
    fix s s' assume "sjf_p_body s = Break s'"
    with sjf_p_body_continues [of s]
    show "map static_fields (procs s') = map static_fields (srt ps)" by simp
  qed
  then show ?thesis by (simp add: r snd_calculate_metrics comp_def)
qed

lemma rr_static:
  assumes "rr_schedule srt ps tq = Some r"
  shows "map static_fields (snd r) = map static_fields (srt ps)"
proof (cases "queue_capacity (srt ps) < 0")
  case True
  with assms show ?thesis by (auto simp: rr_schedule_unallocated)
next
  case False
  with assms obtain s where loop: "while_loop rr_running (rr_body tq) (rr_init (srt ps)) = Some s"
    and r: "r = calculate_metrics (procs s)"
    by (auto simp: rr_schedule_def Let_def split: option.splits)
  have "map static_fields (procs s) = map static_fields (srt ps)"
  proof (rule while_loop_rule [OF loop,
          where I = "\<lambda>s. map static_fields (procs s) = map static_fields (srt ps)"])
    show "map static_fields (procs (rr_init (srt ps))) = map static_fields (srt ps)"
      by (simp add: rr_init_def)
  next
    fix s s' assume "map static_fields (procs s) = map static_fields (srt ps)"
      "rr_body tq s = Continue s'"
    then show "map static_fields (procs s') = map static_fields (srt ps)"
      using rr_body_static [of tq s s'] by simp
  next
    fix s s' assume "map static_fields (procs s) = map static_fields (srt ps)"
      "rr_body tq s = Break s'"
    then show "map static_fields (procs s') = map static_fields (srt ps)"
      using rr_body_static [of tq s s'] by simp
  qed
  then show ?thesis by (simp add: r snd_calculate_metrics comp_def)
qed

lemma static_mset:
  assumes "qsort_post srt ps" "map static_fields qs = map static_fields (srt ps)"
  shows "mset (map static_fields qs) = mset (map static_fields ps)"
  using assms by (simp add: qsort_post_mset)

lemma sjf_np_scenario:
  "map_option (map (\<lambda>p. (remaining_time p, arrival_time p, completion_time p, response_time p, waiting_time p)) \<circ> snd)
     (sjf_non_preemptive_schedule (\<lambda>xs. xs) scenario)
   = Some [(0, 0, 5, 0, 0), (0, 1, 8, 4, 4), (0, 2, 16, 6, 6)]"
  by code_simp

lemma sjf_p_scenario:
  "map_option (map (\<lambda>p. (remaining_time p, arrival_time p, completion_time p)) \<circ> snd)
     (sjf_preemptive_schedule (\<lambda>xs. xs) scenario)
   = Some [(0, 0, 8), (0, 1, 4), (0, 2, 16)]"
  by code_simp

lemma rr_scenario:
  "map_option (map (\<lambda>p. (remaining_time p, arrival_time p, completion_time p)) \<circ> snd)
     (rr_schedule (\<lambda>xs. xs) scenario 2)
   = Some [(0, 0, 12), (0, 1, 9), (0, 2, 16)]"
  by code_simp

lemma fcfs_scenario_all:
  "map (\<lambda>p. (remaining_time p, arrival_time p, completion_time p, response_time p, waiting_time p))
     (snd (fcfs_schedule (\<lambda>xs. xs) scenario))
   = [(0, 0, 5, 0, 0), (0, 1, 8, 4, 4), (0, 2, 16, 6, 6)]"
  by code_simp

text \<open>
  Claim C8. After \<open>fcfs_schedule\<close>, and after \<open>sjf_non_preemptive_schedule\<close> whenever it
  returns, every process of the array (whose derived times the metrics computation has
  filled in) has \<open>response_time = waiting_time\<close>. This holds for every process set.
\<close>

theorem nonpreemptive_response_equals_waiting:
  "(\<forall>p\<in>set (snd (fcfs_schedule srt ps)). response_time p = waiting_time p)
   \<and> (\<forall>r. sjf_non_preemptive_schedule srt ps = Some r \<longrightarrow>
         (\<forall>p\<in>set (snd r). response_time p = waiting_time p))"
  using fcfs_response_waiting [of _ srt ps] sjf_np_result(2) [of srt ps] by blast

theorem nonpreemptive_response_equals_waiting_witness:
  "map (\<lambda>p. (response_time p, waiting_time p)) (snd (fcfs_schedule (\<lambda>xs. xs) scenario))
     = [(0, 0), (4, 4), (6, 6)]
   \<and> map_option (map (\<lambda>p. (response_time p, waiting_time p)) \<circ> snd)
        (sjf_non_preemptive_schedule (\<lambda>xs. xs) scenario) = Some [(0, 0), (4, 4), (6, 6)]"
proof -
  note inst = nonpreemptive_response_equals_waiting [of "\<lambda>xs. xs" scenario]
  have np: "map_option (map (\<lambda>p. (response_time p, waiting_time p)) \<circ> snd)
        (sjf_non_preemptive_schedule (\<lambda>xs. xs) scenario) = Some [(0, 0), (4, 4), (6, 6)]"
    using sjf_np_scenario by (auto simp: map_option_case split: option.splits)
  have ff: "map (\<lambda>p. (response_time p, waiting_time p)) (snd (fcfs_schedule (\<lambda>xs. xs) scenario))
     = [(0, 0), (4, 4), (6, 6)]"
    using fcfs_scenario_all by (auto simp: map_eq_Cons_conv)
  show ?thesis using inst np ff by simp
qed

text \<open>
  Claim C10. Each scheduler only permutes the array and rewrites simulation fields: when
  it returns, the multiset of (id, arrival_time, burst_time, priority) tuples of the array
  is that of the input. (The only assumption is that \<^verbatim>\<open>qsort\<close> permutes its input.)
\<close>

theorem schedulers_keep_static_fields:
  assumes "qsort_post srt ps"
  shows "mset (map static_fields (snd (fcfs_schedule srt ps))) = mset (map static_fields ps)
       \<and> (\<forall>r. sjf_non_preemptive_schedule srt ps = Some r \<longrightarrow>
            mset (map static_fields (snd r)) = mset (map static_fields ps))
       \<and> (\<forall>r. sjf_preemptive_schedule srt ps = Some r \<longrightarrow>
            mset (map static_fields (snd r)) = mset (map static_fields ps))
       \<and> (\<forall>r. rr_schedule srt ps time_quantum = Some r \<longrightarrow>
            mset (map static_fields (snd r)) = mset (map static_fields ps))"
  using fcfs_static [OF assms] static_mset [OF assms]
    sjf_np_result(1) [of srt ps] sjf_p_static [of srt ps] rr_static [of srt ps time_quantum]
  by blast

lemma sort_rev_scenario: "sort_key arrival_time (rev scenario) = scenario"
  by (simp add: scenario_def new_process_def)

lemma static_rev_scenario:
  "map static_fields (rev scenario) = [(''P3'', 2, 8, 1), (''P2'', 1, 3, 1), (''P1'', 0, 5, 1)]"
  by (simp add: scenario_def new_process_def static_fields_def)

lemma static_fcfs_scenario:
  "map static_fields (snd (fcfs_schedule (\<lambda>xs. xs) scenario))
     = [(''P1'', 0, 5, 1), (''P2'', 1, 3, 1), (''P3'', 2, 8, 1)]"
  by (simp add: fcfs_schedule_def snd_calculate_metrics static_fcfs_loop comp_def)
     (simp add: scenario_def new_process_def static_fields_def)

lemma static_sjf_np_scenario:
  "map_option (map static_fields \<circ> snd) (sjf_non_preemptive_schedule (\<lambda>xs. xs) scenario)
     = Some [(''P1'', 0, 5, 1), (''P2'', 1, 3, 1), (''P3'', 2, 8, 1)]"
  by code_simp

lemma static_sjf_p_scenario:
  "map_option (map static_fields \<circ> snd) (sjf_preemptive_schedule (\<lambda>xs. xs) scenario)
     = Some [(''P1'', 0, 5, 1), (''P2'', 1, 3, 1), (''P3'', 2, 8, 1)]"
  by code_simp

lemma static_rr_scenario:
  "map_option (map static_fields \<circ> snd) (rr_schedule (\<lambda>xs. xs) scenario 2)
     = Some [(''P1'', 0, 5, 1), (''P2'', 1, 3, 1), (''P3'', 2, 8, 1)]"
  by code_simp

lemma schedule_sorted_input:
  assumes "srt ps = qs"
  shows "fcfs_schedule srt ps = fcfs_schedule (\<lambda>xs. xs) qs"
    and "sjf_non_preemptive_schedule srt ps = sjf_non_preemptive_schedule (\<lambda>xs. xs) qs"
    and "sjf_preemptive_schedule srt ps = sjf_preemptive_schedule (\<lambda>xs. xs) qs"
    and "rr_schedule srt ps tq = rr_schedule (\<lambda>xs. xs) qs tq"
  using assms
  by (simp_all add: fcfs_schedule_def sjf_non_preemptive_schedule_def
      sjf_preemptive_schedule_def rr_schedule_def Let_def)

theorem schedulers_keep_static_fields_witness:
  "qsort_post (sort_key arrival_time) (rev scenario)
   \<and> sjf_non_preemptive_schedule (sort_key arrival_time) (rev scenario) \<noteq> None
   \<and> sjf_preemptive_schedule (sort_key arrival_time) (rev scenario) \<noteq> None
   \<and> rr_schedule (sort_key arrival_time) (rev scenario) 2 \<noteq> None
   \<and> mset (map static_fields (snd (fcfs_schedule (sort_key arrival_time) (rev scenario))))
       = mset (map static_fields (rev scenario))
   \<and> mset (map static_fields
         (snd (the (sjf_non_preemptive_schedule (sort_key arrival_time) (rev scenario)))))
       = mset (map static_fields (rev scenario))
   \<and> mset (map static_fields
         (snd (the (sjf_preemptive_schedule (sort_key arrival_time) (rev scenario)))))
       = mset (map static_fields (rev scenario))
   \<and> mset (map static_fields (snd (the (rr_schedule (sort_key arrival_time) (rev scenario) 2))))
       = mset (map static_fields (rev scenario))"
proof -
  have fit: "arrivals_fit (rev scenario)" using arrivals_fit_scenario by (simp add: arrivals_fit_def)
  note inst = schedulers_keep_static_fields [OF qsort_post_sort_key [OF fit], of 2]
  note eq = schedule_sorted_input [of "sort_key arrival_time" "rev scenario" scenario,
      OF sort_rev_scenario]
  from static_sjf_np_scenario obtain r1
    where r1: "sjf_non_preemptive_schedule (sort_key arrival_time) (rev scenario) = Some r1"
    unfolding eq by blast
  from static_sjf_p_scenario obtain r2
    where r2: "sjf_preemptive_schedule (sort_key arrival_time) (rev scenario) = Some r2"
    unfolding eq by blast
  from static_rr_scenario obtain r3
    where r3: "rr_schedule (sort_key arrival_time) (rev scenario) 2 = Some r3"
    unfolding eq by blast
  from inst r1 r2 r3 qsort_post_sort_key [OF fit] show ?thesis
    by (simp only: option.sel option.distinct not_False_eq_True simp_thms)
qed

subsection \<open>The clock while it cannot overflow\<close>

lemma work_left_update:
  "i < length ps \<Longrightarrow>
   work_left (ps[i := p]) = work_left ps - remaining_time (ps ! i) + remaining_time p"
  unfolding work_left_def
proof (induction ps arbitrary: i)
  case Nil
  then show ?case by simp
next
  case (Cons q qs)
  then show ?case by (cases i) simp_all
qed

lemma work_left_member:
  "\<forall>q\<in>set ps. 0 \<le> remaining_time q \<Longrightarrow> p \<in> set ps \<Longrightarrow> remaining_time p \<le> work_left ps"
  unfolding work_left_def
proof (induction ps)
  case Nil
  then show ?case by simp
next
  case (Cons q qs)
  have "0 \<le> sum_list (map remaining_time qs)"
    using Cons.prems(1) by (intro sum_list_nonneg) auto
  with Cons show ?case by auto
qed

lemma work_left_well_formed:
  "\<forall>p\<in>set ps. well_formed p \<Longrightarrow> work_left ps = sum_list (map burst_time ps)"
  by (induction ps) (simp_all add: work_left_def well_formed_def)

lemma clock_inv_init:
  assumes "\<forall>p\<in>set ps0. well_formed p"
  shows "clock_inv ps0 ps0 0"
proof -
  have "0 < remaining_time (ps0 ! i)" if "i < length ps0" for i
    using assms that by (simp add: well_formed_def)
  then have "\<forall>i<length ps0. 0 \<le> remaining_time (ps0 ! i) \<and> remaining_time (ps0 ! i) \<noteq> 0"
    by force
  then show ?thesis
    using work_left_well_formed [OF assms] latest_arrival_nonneg [of ps0]
    by (simp add: clock_inv_def clock_limit_def)
qed

lemma clock_inv_idle:
  assumes "clock_inv ps0 ps t" "0 \<le> m" "m \<le> latest_arrival ps0"
  shows "clock_inv ps0 ps m"
  using assms by (simp add: clock_inv_def clock_limit_def)

lemma clock_no_overflow:
  assumes inv: "clock_inv ps0 ps t" and lim: "clock_limit ps0 \<le> INT_MAX"
    and i: "i < length ps" and e: "0 \<le> e" "e \<le> remaining_time (ps ! i)"
  shows "wrap_int (t + e) = t + e" and "remaining_time (ps ! i) \<le> INT_MAX"
proof -
  from inv have "\<forall>q\<in>set ps. 0 \<le> remaining_time q"
    by (auto simp: clock_inv_def in_set_conv_nth)
  then have "remaining_time (ps ! i) \<le> work_left ps"
    using i by (intro work_left_member) simp_all
  moreover from inv have "0 \<le> t" "t + work_left ps \<le> clock_limit ps0"
    by (simp_all add: clock_inv_def)
  ultimately have *: "0 \<le> t + e" "t + e \<le> INT_MAX" "remaining_time (ps ! i) \<le> INT_MAX"
    using e lim by simp_all
  from *(1,2) show "wrap_int (t + e) = t + e" by (rule wrap_int_nonneg)
  from *(3) show "remaining_time (ps ! i) \<le> INT_MAX" .
qed

lemma clock_inv_slice:
  assumes inv: "clock_inv ps0 ps t" and i: "i < length ps"
    and e: "0 \<le> e" "e \<le> remaining_time (ps ! i)"
    and rem: "remaining_time p = remaining_time (ps ! i) - e"
    and fin: "remaining_time p = 0 \<Longrightarrow> arrival_time p \<le> completion_time p"
  shows "clock_inv ps0 (ps[i := p]) (t + e)"
proof -
  have w: "work_left (ps[i := p]) = work_left ps - e"
    using work_left_update [OF i, of p] rem by simp
  from inv have t: "0 \<le> t" and nn: "\<And>j. j < length ps \<Longrightarrow> 0 \<le> remaining_time (ps ! j)"
    and tot: "work_left ps \<le> sum_list (map burst_time ps0)"
    and bound: "t + work_left ps \<le> clock_limit ps0"
    and past: "\<And>j. j < length ps \<Longrightarrow> remaining_time (ps ! j) = 0 \<Longrightarrow>
        arrival_time (ps ! j) \<le> completion_time (ps ! j)"
    by (simp_all add: clock_inv_def)
  show ?thesis
    unfolding clock_inv_def
  proof (intro conjI allI impI)
    show "0 \<le> t + e" using t e by simp
    show "0 \<le> remaining_time (ps[i := p] ! j)" if "j < length (ps[i := p])" for j
      using that nn [of j] rem e by (cases "j = i") simp_all
    show "work_left (ps[i := p]) \<le> sum_list (map burst_time ps0)" using w e tot by simp
    show "t + e + work_left (ps[i := p]) \<le> clock_limit ps0" using w bound by simp
    show "arrival_time (ps[i := p] ! j) \<le> completion_time (ps[i := p] ! j)"
      if "j < length (ps[i := p])" "remaining_time (ps[i := p] ! j) = 0" for j
      using that fin past [of j] by (cases "j = i") simp_all
  qed
qed

lemma clock_inv_result:
  assumes "clock_inv ps0 qs t" "p \<in> set (snd (calculate_metrics qs))" "remaining_time p = 0"
  shows "arrival_time p \<le> completion_time p"
proof -
  from assms(2) obtain i where "i < length qs" "p = set_derived_times (qs ! i)"
    by (auto simp: snd_calculate_metrics in_set_conv_nth)
  with assms(1,3) show ?thesis by (simp add: clock_inv_def)
qed

lemma find_next_arrival_range:
  assumes base: "sjf_base ps0 s" and run: "sjf_running s" and fit: "arrivals_fit ps0"
  shows "0 \<le> find_next_arrival (procs s) (is_completed s)"
    and "find_next_arrival (procs s) (is_completed s) \<le> latest_arrival ps0"
proof -
  let ?m = "find_next_arrival (procs s) (is_completed s)"
  from base have len: "length (procs s) = length ps0" "length (is_completed s) = length ps0"
    and st: "map static_fields (procs s) = map static_fields ps0"
    and cnt: "completed s = count_done (is_completed s)"
    by (simp_all add: sjf_base_def)
  have arr: "0 \<le> arrival_time (procs s ! j) \<and> arrival_time (procs s ! j) \<le> latest_arrival ps0"
    if "j < length ps0" for j
  proof -
    from static_fields_nth [OF st that]
    have "arrival_time (procs s ! j) = arrival_time (ps0 ! j)" by simp
    moreover have "ps0 ! j \<in> set ps0" using that by simp
    ultimately show ?thesis
      using fit latest_arrival_ge [of "ps0 ! j" ps0] by (simp add: arrivals_fit_def)
  qed
  from run len cnt count_done_open [of "is_completed s"]
  obtain j where j: "j < length ps0" "\<not> is_completed s ! j"
    by (auto simp: sjf_running_def)
  from find_next_arrival_props(2) [of j "procs s" "is_completed s"] j len arr [OF j(1)]
  show "?m \<le> latest_arrival ps0" by simp
  from find_next_arrival_props(3) [of "procs s" "is_completed s"] show "0 \<le> ?m"
  proof
    assume "?m = INT_MAX"
    then show ?thesis by (simp add: INT_MAX_def)
  next
    assume "\<exists>j<length (procs s). \<not> is_completed s ! j \<and> arrival_time (procs s ! j) = ?m"
    then obtain k where "k < length (procs s)" "arrival_time (procs s ! k) = ?m" by blast
    with arr [of k] len show ?thesis by simp
  qed
qed

lemma sjf_np_clock_step:
  assumes inv: "sjf_np_inv ps0 s" and clk: "clock_inv ps0 (procs s) (current_time s)"
    and run: "sjf_running s" and body: "sjf_np_body s = Continue s'"
    and wf: "\<forall>p\<in>set ps0. well_formed p" and lim: "clock_limit ps0 \<le> INT_MAX"
  shows "clock_inv ps0 (procs s') (current_time s')"
proof (cases "find_shortest burst_time (procs s) (is_completed s) (current_time s) = - 1")
  case True
  from sjf_np_body_idle [OF True] body
  have s': "s' = s\<lparr>current_time := find_next_arrival (procs s) (is_completed s)\<rparr>" by simp
  from inv have base: "sjf_base ps0 s" by (simp add: sjf_np_inv_def)
  note r = find_next_arrival_range [OF base run well_formed_arrivals_fit [OF wf]]
  from clock_inv_idle [OF clk r] show ?thesis by (simp add: s')
next
  case False
  define i where "i = nat (find_shortest burst_time (procs s) (is_completed s) (current_time s))"
  note fs = find_shortest_some [OF False, folded i_def]
  let ?p = "procs s ! i" and ?t = "current_time s"
  from inv have base: "sjf_base ps0 s" by (simp add: sjf_np_inv_def)
  then have len: "length (procs s) = length ps0"
    and st: "map static_fields (procs s) = map static_fields ps0"
    by (simp_all add: sjf_base_def)
  from fs(3) have nd: "\<not> is_completed s ! i" and arr: "arrival_time ?p \<le> ?t"
    by (simp_all add: eligible_def)
  from inv nd fs(2) len have "remaining_time ?p = remaining_time (ps0 ! i)"
    by (simp add: sjf_np_inv_def)
  moreover from wf fs(2) len have "well_formed (ps0 ! i)" by simp
  moreover from static_fields_nth [OF st] fs(2) len have "burst_time ?p = burst_time (ps0 ! i)"
    by simp
  ultimately have rem: "remaining_time ?p = burst_time ?p" "0 < burst_time ?p"
    by (simp_all add: well_formed_def)
  define p' where "p' = ?p\<lparr>response_time := wrap_int (?t - arrival_time ?p), started := True,
      completion_time := wrap_int (?t + burst_time ?p), remaining_time := 0\<rparr>"
  from sjf_np_body_dispatch [OF fs(1)] body
  have s': "current_time s' = wrap_int (?t + burst_time ?p)" "procs s' = (procs s)[i := p']"
    by (auto simp: p'_def)
  have no: "wrap_int (?t + burst_time ?p) = ?t + burst_time ?p"
    using clk lim fs(2) by (rule clock_no_overflow) (use rem in simp_all)
  have "clock_inv ps0 ((procs s)[i := p']) (?t + burst_time ?p)"
    using clk fs(2) by (rule clock_inv_slice) (use rem arr no in \<open>simp_all add: p'_def\<close>)
  then show ?thesis by (simp add: s' no)
qed

lemma sjf_np_clock_final:
  assumes run: "while_loop sjf_running sjf_np_body (sjf_init ps0) = Some s"
    and wf: "\<forall>p\<in>set ps0. well_formed p" and lim: "clock_limit ps0 \<le> INT_MAX"
  shows "clock_inv ps0 (procs s) (current_time s)"
proof (rule while_loop_rule [OF run,
      where I = "\<lambda>s. sjf_np_inv ps0 s \<and> clock_inv ps0 (procs s) (current_time s)"])
  show "sjf_np_inv ps0 (sjf_init ps0) \<and>
      clock_inv ps0 (procs (sjf_init ps0)) (current_time (sjf_init ps0))"
    using sjf_np_inv_init [of ps0] clock_inv_init [OF wf] by (simp add: sjf_init_def)
next
  fix s s'
  assume "sjf_np_inv ps0 s \<and> clock_inv ps0 (procs s) (current_time s)" "sjf_running s"
    "sjf_np_body s = Continue s'"
  then show "sjf_np_inv ps0 s' \<and> clock_inv ps0 (procs s') (current_time s')"
    using sjf_np_inv_step [of ps0 s s'] sjf_np_clock_step [of ps0 s s'] wf lim by blast
next
  fix s s' assume "sjf_np_body s = Break s'"
  with sjf_np_body_continues [of s] show "clock_inv ps0 (procs s') (current_time s')" by simp
next
  fix s assume "sjf_np_inv ps0 s \<and> clock_inv ps0 (procs s) (current_time s)"
  then show "clock_inv ps0 (procs s) (current_time s)" by simp
qed

lemma sjf_p_clock_step:
  assumes inv: "sjf_p_inv ps0 s" and clk: "clock_inv ps0 (procs s) (current_time s)"
    and run: "sjf_running s" and body: "sjf_p_body s = Continue s'"
    and wf: "\<forall>p\<in>set ps0. well_formed p" and lim: "clock_limit ps0 \<le> INT_MAX"
  shows "clock_inv ps0 (procs s') (current_time s')"
proof (cases "find_shortest remaining_time (procs s) (is_completed s) (current_time s) = - 1")
  case True
  from sjf_p_body_idle [OF True] body
  have s': "s' = s\<lparr>current_time := find_next_arrival (procs s) (is_completed s)\<rparr>" by simp
  from inv have base: "sjf_base ps0 s" by (simp add: sjf_p_inv_def)
  note r = find_next_arrival_range [OF base run well_formed_arrivals_fit [OF wf]]
  from clock_inv_idle [OF clk r] show ?thesis by (simp add: s')
next
  case False
  define i where "i = nat (find_shortest remaining_time (procs s) (is_completed s) (current_time s))"
  note fs = find_shortest_some [OF False, folded i_def]
  let ?p = "procs s ! i" and ?t = "current_time s"
  from inv have base: "sjf_base ps0 s" by (simp add: sjf_p_inv_def)
  then have len: "length (procs s) = length ps0" by (simp add: sjf_base_def)
  from fs(3) have nd: "\<not> is_completed s ! i" and arr: "arrival_time ?p \<le> ?t"
    by (simp_all add: eligible_def)
  from inv nd fs(2) len have rem: "0 < remaining_time ?p" by (simp add: sjf_p_inv_def)
  define p' where "p' = procs s' ! i"
  note s' = sjf_p_body_dispatch [OF fs(1) body fs(2), folded p'_def]
  have no: "wrap_int (?t + 1) = ?t + 1"
    using clk lim fs(2) by (rule clock_no_overflow(1)) (use rem in simp_all)
  have "remaining_time ?p \<le> INT_MAX"
    using clk lim fs(2) by (rule clock_no_overflow(2) [where e = 0]) (use rem in simp_all)
  with rem have "wrap_int (remaining_time ?p - 1) = remaining_time ?p - 1"
    by (intro wrap_int_nonneg) simp_all
  with s'(3) have rem': "remaining_time p' = remaining_time ?p - 1" by simp
  from s'(2) have same: "arrival_time p' = arrival_time ?p" by (simp add: static_fields_def)
  have fin: "arrival_time p' \<le> completion_time p'" if "remaining_time p' = 0"
    using s'(5) that same arr no by simp
  have "clock_inv ps0 ((procs s)[i := p']) (?t + 1)"
    using clk fs(2) by (rule clock_inv_slice) (use rem rem' fin in simp_all)
  with s'(1,4) show ?thesis by (simp add: no)
qed

lemma sjf_p_clock_final:
  assumes run: "while_loop sjf_running sjf_p_body (sjf_init ps0) = Some s"
    and wf: "\<forall>p\<in>set ps0. well_formed p" and lim: "clock_limit ps0 \<le> INT_MAX"
  shows "clock_inv ps0 (procs s) (current_time s)"
proof (rule while_loop_rule [OF run,
      where I = "\<lambda>s. sjf_p_inv ps0 s \<and> clock_inv ps0 (procs s) (current_time s)"])
  show "sjf_p_inv ps0 (sjf_init ps0) \<and>
      clock_inv ps0 (procs (sjf_init ps0)) (current_time (sjf_init ps0))"
    using sjf_p_inv_init [OF wf] clock_inv_init [OF wf] by (simp add: sjf_init_def)
next
  fix s s'
  assume "sjf_p_inv ps0 s \<and> clock_inv ps0 (procs s) (current_time s)" "sjf_running s"
    "sjf_p_body s = Continue s'"
  then show "sjf_p_inv ps0 s' \<and> clock_inv ps0 (procs s') (current_time s')"
    using sjf_p_inv_step [of ps0 s s'] sjf_p_clock_step [of ps0 s s'] wf lim by blast
next
  fix s s' assume "sjf_p_body s = Break s'"
  with sjf_p_body_continues [of s] show "clock_inv ps0 (procs s') (current_time s')" by simp
next
  fix s assume "sjf_p_inv ps0 s \<and> clock_inv ps0 (procs s) (current_time s)"
  then show "clock_inv ps0 (procs s) (current_time s)" by simp
qed

lemma rr_clock_step:
  assumes inv: "rr_inv ps0 s" and clk: "rr_clock ps0 s" and tq: "0 < tq"
    and body: "rr_body tq s = Continue s'" and lim: "clock_limit ps0 \<le> INT_MAX"
  shows "rr_clock ps0 s'"
proof -
  let ?s1 = "admit_arrivals s"
  let ?nx = "next_arrival_idx s" and ?nx1 = "next_arrival_idx ?s1"
  from inv have ok: "rr_ok s" and len: "length (procs s) = length ps0"
    and st: "map static_fields (procs s) = map static_fields ps0"
    unfolding rr_inv_def by blast+
  from clk have ci: "clock_inv ps0 (procs s) (current_time s)"
    and arr: "\<And>i. i < ?nx \<Longrightarrow> arrival_time (procs s ! i) \<le> current_time s"
    by (simp_all add: rr_clock_def)
  have arr1: "arrival_time (procs s ! i) \<le> current_time s" if "i < ?nx1" for i
    using that arr [of i] admit_arrivals_arrived [of s i] by (cases "i < ?nx") simp_all
  show ?thesis
  proof (cases "ready_list ?s1 = []")
    case True
    then have e: "queue_list (ready_queue ?s1) = []" by (simp add: ready_list_def)
    show ?thesis
    proof (cases "?nx1 < length (procs s)")
      case False
      with rr_body_break [OF e False, of tq] body show ?thesis by simp
    next
      case lt: True
      let ?m = "arrival_time (procs s ! ?nx1)"
      from rr_body_idle [OF e lt, of tq] body
      have s': "s' = ?s1\<lparr>current_time := ?m\<rparr>" by simp
      have later: "current_time s < ?m" using lt by (rule admit_arrivals_stops)
      have "0 \<le> ?m" using later ci by (simp add: clock_inv_def)
      moreover have "?m \<le> latest_arrival ps0"
      proof -
        have "procs s ! ?nx1 \<in> set (procs s)" using lt by simp
        then have "?m \<le> latest_arrival (procs s)" by (rule latest_arrival_ge)
        then show ?thesis using latest_arrival_static [OF st] by simp
      qed
      ultimately have "clock_inv ps0 (procs s) ?m" by (rule clock_inv_idle [OF ci])
      moreover have "arrival_time (procs s ! i) \<le> ?m" if "i < ?nx1" for i
        using arr1 [OF that] later by simp
      ultimately show ?thesis by (simp add: rr_clock_def s')
    qed
  next
    case False
    then have ne: "queue_list (ready_queue ?s1) \<noteq> []" by (simp add: ready_list_def)
    define idx where "idx = hd (ready_list ?s1)"
    define p2 where "p2 = run_slice tq (current_time s) (procs s ! idx)"
    define t' where "t' = wrap_int (current_time s + execution_time tq (procs s ! idx))"
    let ?e = "execution_time tq (procs s ! idx)"
    note d = rr_dispatch_facts [OF inv False, folded idx_def]
    note ex = execution_time_bounds [OF tq d(2)]
    have idxn: "idx < length (procs s)" using d(1) len by simp
    have no: "t' = current_time s + ?e"
      unfolding t'_def using ci lim idxn by (rule clock_no_overflow) (use ex in simp_all)
    have "wrap_int (remaining_time (procs s ! idx) - ?e) = remaining_time (procs s ! idx) - ?e"
      using ex d(3) by (intro wrap_int_nonneg) simp_all
    then have rem2: "remaining_time p2 = remaining_time (procs s ! idx) - ?e"
      by (simp add: p2_def)
    define p' where "p' = (if remaining_time p2 = 0 then p2\<lparr>completion_time := t'\<rparr> else p2)"
    from rr_body_dispatch [OF ok ne, of tq] body
    have s': "current_time s' = t'" "?nx1 \<le> next_arrival_idx s'"
      "\<And>i. ?nx1 \<le> i \<Longrightarrow> i < next_arrival_idx s' \<Longrightarrow> arrival_time (procs s ! i) \<le> t'"
      "procs s' = (procs s)[idx := p']"
      unfolding ready_list_def idx_def p2_def t'_def p'_def by (auto split: if_splits)
    have p': "remaining_time p' = remaining_time (procs s ! idx) - ?e"
      "arrival_time p' = arrival_time (procs s ! idx)"
      "remaining_time p' = 0 \<Longrightarrow> completion_time p' = t'"
      by (cases "remaining_time p2 = 0"; simp add: p'_def rem2; simp add: p2_def)+
    have "clock_inv ps0 ((procs s)[idx := p']) (current_time s + ?e)"
      using ci idxn by (rule clock_inv_slice) (use ex p' arr1 [OF d(4)] no in simp_all)
    moreover have "arrival_time (procs s' ! i) \<le> t'" if "i < next_arrival_idx s'" for i
    proof -
      have "arrival_time (procs s' ! i) = arrival_time (procs s ! i)"
        unfolding s'(4) using p'(2) by (rule arrival_time_update_same)
      moreover have "arrival_time (procs s ! i) \<le> t'"
        using that arr1 [of i] s'(3) [of i] ex(1) no by (cases "i < ?nx1") simp_all
      ultimately show ?thesis by simp
    qed
    ultimately show ?thesis by (simp add: rr_clock_def s' no)
  qed
qed

lemma rr_clock_final:
  assumes run: "while_loop rr_running (rr_body tq) (rr_init ps0) = Some s"
    and ne: "ps0 \<noteq> []" and wf: "\<forall>p\<in>set ps0. well_formed p" and tq: "0 < tq"
    and lim: "clock_limit ps0 \<le> INT_MAX" and fits: "queue_fits ps0"
  shows "clock_inv ps0 (procs s) (current_time s)"
proof (rule while_loop_rule [OF run, where I = "\<lambda>s. rr_inv ps0 s \<and> rr_clock ps0 s"])
  show "rr_inv ps0 (rr_init ps0) \<and> rr_clock ps0 (rr_init ps0)"
    using rr_inv_init [OF ne wf fits] clock_inv_init [OF wf]
    by (simp add: rr_clock_def rr_init_def)
next
  fix s s' assume "rr_inv ps0 s \<and> rr_clock ps0 s" "rr_body tq s = Continue s'"
  then show "rr_inv ps0 s' \<and> rr_clock ps0 s'"
    using rr_inv_step [of ps0 s tq s'] rr_clock_step [of ps0 s tq s'] tq lim by blast
next
  fix s s' assume I: "rr_inv ps0 s \<and> rr_clock ps0 s" and body: "rr_body tq s = Break s'"
  from I have ok: "rr_ok s" by (simp add: rr_inv_def)
  from rr_body_Break(1) [OF ok body] I show "clock_inv ps0 (procs s') (current_time s')"
    by (simp add: rr_clock_def)
next
  fix s assume "rr_inv ps0 s \<and> rr_clock ps0 s"
  then show "clock_inv ps0 (procs s) (current_time s)" by (simp add: rr_clock_def)
qed

lemma completion_after_arrival:
  assumes q: "qsort_post srt ps" and wf: "\<forall>p\<in>set ps. well_formed p"
    and lim: "clock_limit ps \<le> INT_MAX" and tq: "0 < tq"
  shows "sjf_non_preemptive_schedule srt ps = Some r \<Longrightarrow> p \<in> set (snd r) \<Longrightarrow>
           arrival_time p \<le> completion_time p"
    and "sjf_preemptive_schedule srt ps = Some r \<Longrightarrow> p \<in> set (snd r) \<Longrightarrow>
           arrival_time p \<le> completion_time p"
    and "queue_fits ps \<Longrightarrow> rr_schedule srt ps tq = Some r \<Longrightarrow> p \<in> set (snd r) \<Longrightarrow>
           arrival_time p \<le> completion_time p"
proof -
  note wf' = qsort_post_well_formed [OF q wf]
  have lim': "clock_limit (srt ps) \<le> INT_MAX"
    using lim clock_limit_mset [OF qsort_post_mset [OF q]] by simp
  {
    assume run: "sjf_non_preemptive_schedule srt ps = Some r" and p: "p \<in> set (snd r)"
    from run obtain s where loop: "while_loop sjf_running sjf_np_body (sjf_init (srt ps)) = Some s"
      and r: "r = calculate_metrics (procs s)"
      by (auto simp: sjf_non_preemptive_schedule_def split: option.splits)
    from sjf_np_clock_final [OF loop wf' lim'] p sjf_np_result(2) [OF run p]
    show "arrival_time p \<le> completion_time p" unfolding r by (intro clock_inv_result) simp_all
  next
    assume run: "sjf_preemptive_schedule srt ps = Some r" and p: "p \<in> set (snd r)"
    from run obtain s where loop: "while_loop sjf_running sjf_p_body (sjf_init (srt ps)) = Some s"
      and r: "r = calculate_metrics (procs s)"
      by (auto simp: sjf_preemptive_schedule_def split: option.splits)
    from sjf_p_clock_final [OF loop wf' lim'] p sjf_p_result(2) [OF run wf' p]
    show "arrival_time p \<le> completion_time p" unfolding r by (intro clock_inv_result) simp_all
  next
    assume "queue_fits ps"
    then have fits: "queue_fits (srt ps)" by (simp add: queue_fits_mset [OF qsort_post_mset [OF q]])
    assume run: "rr_schedule srt ps tq = Some r" and p: "p \<in> set (snd r)"
    show "arrival_time p \<le> completion_time p"
    proof (cases "srt ps = []")
      case True
      with run rr_schedule_empty [of srt ps tq] p show ?thesis
        by (auto simp: snd_calculate_metrics)
    next
      case False
      from run obtain s where loop: "while_loop rr_running (rr_body tq) (rr_init (srt ps)) = Some s"
        and r: "r = calculate_metrics (procs s)"
        by (auto simp: rr_schedule_fits [of srt ps, OF fits] split: option.splits)
      from rr_clock_final [OF loop False wf' tq lim' fits] p rr_result(2) [OF run wf' tq fits p]
      show ?thesis unfolding r by (intro clock_inv_result) simp_all
    qed
  }
qed


subsection \<open>Every process is completed\<close>

lemma clock_limit_scenario: "clock_limit scenario \<le> INT_MAX"
  by (simp add: clock_limit_def scenario_def new_process_def INT_MAX_def)

text \<open>
  Claim C1 as stated fails when the clock overflows. The processes P1(arrival 0, burst
  2000000000) and P2(arrival 1, burst 2000000000) are well formed; \<open>fcfs_schedule\<close>
  completes P1 at 2000000000, and the clock wraps around when P2 is added: P2 gets the
  completion time \<open>-294967296\<close>, before its arrival at 1.
\<close>

theorem fcfs_completion_overflow_counterexample:
  "list_all well_formed
     [new_process ''P1'' 0 2000000000 1, new_process ''P2'' 1 2000000000 1]
   \<and> map (\<lambda>p. (id' p, arrival_time p, remaining_time p, completion_time p))
       (snd (fcfs_schedule (\<lambda>xs. xs)
          [new_process ''P1'' 0 2000000000 1, new_process ''P2'' 1 2000000000 1]))
     = [(''P1'', 0, 0, 2000000000), (''P2'', 1, 0, - 294967296)]"
  by code_simp

text \<open>
  Claim C1, amended. Let the process set be well formed and the quantum positive. After
  \<open>fcfs_schedule\<close>, and after each of \<open>sjf_non_preemptive_schedule\<close>,
  \<open>sjf_preemptive_schedule\<close> and \<open>rr_schedule\<close> whenever that function returns, every
  process of the array has \<open>remaining_time = 0\<close>; and if the latest arrival time plus the
  sum of all burst times is at most \<open>INT_MAX\<close>, so that the clock does not overflow, its
  completion time is not before its arrival. For \<open>rr_schedule\<close> this is stated for the
  process sets whose queue capacity \<^verbatim>\<open>n * 100\<close> is an \<^verbatim>\<open>int\<close>.
\<close>

theorem schedulers_complete_every_process:
  assumes "qsort_post srt ps" and "\<forall>p\<in>set ps. well_formed p" and "0 < time_quantum"
  shows "(\<forall>p\<in>set (snd (fcfs_schedule srt ps)).
            remaining_time p = 0
            \<and> (clock_limit ps \<le> INT_MAX \<longrightarrow> arrival_time p \<le> completion_time p))
       \<and> (\<forall>r. sjf_non_preemptive_schedule srt ps = Some r \<longrightarrow>
            (\<forall>p\<in>set (snd r). remaining_time p = 0
               \<and> (clock_limit ps \<le> INT_MAX \<longrightarrow> arrival_time p \<le> completion_time p)))
       \<and> (\<forall>r. sjf_preemptive_schedule srt ps = Some r \<longrightarrow>
            (\<forall>p\<in>set (snd r). remaining_time p = 0
               \<and> (clock_limit ps \<le> INT_MAX \<longrightarrow> arrival_time p \<le> completion_time p)))
       \<and> (queue_fits ps \<longrightarrow>
            (\<forall>r. rr_schedule srt ps time_quantum = Some r \<longrightarrow>
               (\<forall>p\<in>set (snd r). remaining_time p = 0
                  \<and> (clock_limit ps \<le> INT_MAX \<longrightarrow> arrival_time p \<le> completion_time p))))"
proof (intro conjI allI impI ballI)
  note wf = qsort_post_well_formed [OF assms(1,2)]
  {
    fix p assume p: "p \<in> set (snd (fcfs_schedule srt ps))"
    from fcfs_done(1) [OF assms(1,2) p] show "remaining_time p = 0" .
    assume "clock_limit ps \<le> INT_MAX"
    with fcfs_done(2) [OF assms(1,2) p] show "arrival_time p \<le> completion_time p" .
  next
    fix r p assume run: "sjf_non_preemptive_schedule srt ps = Some r" and p: "p \<in> set (snd r)"
    from sjf_np_result(2) [OF run p] show "remaining_time p = 0" by simp
    assume "clock_limit ps \<le> INT_MAX"
    from completion_after_arrival(1) [OF assms(1,2) this assms(3) run p]
    show "arrival_time p \<le> completion_time p" .
  next
    fix r p assume run: "sjf_preemptive_schedule srt ps = Some r" and p: "p \<in> set (snd r)"
    from sjf_p_result(2) [OF run wf p] show "remaining_time p = 0" .
    assume "clock_limit ps \<le> INT_MAX"
    from completion_after_arrival(2) [OF assms(1,2) this assms(3) run p]
    show "arrival_time p \<le> completion_time p" .
  next
    fix r p assume fits: "queue_fits ps"
      and run: "rr_schedule srt ps time_quantum = Some r" and p: "p \<in> set (snd r)"
    from fits have fits': "queue_fits (srt ps)"
      by (simp add: queue_fits_mset [OF qsort_post_mset [OF assms(1)]])
    from rr_result(2) [OF run wf assms(3) fits' p] show "remaining_time p = 0" .
    assume "clock_limit ps \<le> INT_MAX"
    from completion_after_arrival(3) [OF assms(1,2) this assms(3) fits run p]
    show "arrival_time p \<le> completion_time p" .
  }
qed

theorem schedulers_complete_every_process_witness:
  "qsort_post (\<lambda>xs. xs) scenario \<and> list_all well_formed scenario \<and> (0::int) < 2
   \<and> clock_limit scenario \<le> INT_MAX \<and> queue_fits scenario
   \<and> map (\<lambda>p. (remaining_time p, arrival_time p, completion_time p))
        (snd (fcfs_schedule (\<lambda>xs. xs) scenario)) = [(0, 0, 5), (0, 1, 8), (0, 2, 16)]
   \<and> map_option (map (\<lambda>p. (remaining_time p, arrival_time p, completion_time p)) \<circ> snd)
        (sjf_non_preemptive_schedule (\<lambda>xs. xs) scenario) = Some [(0, 0, 5), (0, 1, 8), (0, 2, 16)]
   \<and> map_option (map (\<lambda>p. (remaining_time p, arrival_time p, completion_time p)) \<circ> snd)
        (sjf_preemptive_schedule (\<lambda>xs. xs) scenario) = Some [(0, 0, 8), (0, 1, 4), (0, 2, 16)]
   \<and> map_option (map (\<lambda>p. (remaining_time p, arrival_time p, completion_time p)) \<circ> snd)
        (rr_schedule (\<lambda>xs. xs) scenario 2) = Some [(0, 0, 12), (0, 1, 9), (0, 2, 16)]"
proof -
  have h: "(0::int) < 2" by simp
  note inst = schedulers_complete_every_process [OF qsort_post_scenario_id well_formed_scenario h]
  have np: "map_option (map (\<lambda>p. (remaining_time p, arrival_time p, completion_time p)) \<circ> snd)
        (sjf_non_preemptive_schedule (\<lambda>xs. xs) scenario) = Some [(0, 0, 5), (0, 1, 8), (0, 2, 16)]"
    using sjf_np_scenario by (auto simp: map_option_case split: option.splits)
  have ff: "map (\<lambda>p. (remaining_time p, arrival_time p, completion_time p))
        (snd (fcfs_schedule (\<lambda>xs. xs) scenario)) = [(0, 0, 5), (0, 1, 8), (0, 2, 16)]"
    using fcfs_scenario_all by (auto simp: map_eq_Cons_conv)
  show ?thesis
    using inst qsort_post_scenario_id well_formed_scenario clock_limit_scenario
      queue_fits_scenario np ff sjf_p_scenario rr_scenario
    by (simp add: list_all_iff)
qed

subsection \<open>Termination of the round-robin loop\<close>

lemma admit_arrivals_admits:
  assumes "has_arrived s"
  shows "next_arrival_idx s < next_arrival_idx (admit_arrivals s)"
proof -
  from assms have "admit_arrivals s = admit_arrivals (admit_one s)"
    by (simp add: admit_arrivals_unfold [of s])
  with admit_arrivals_mono [of "admit_one s"] show ?thesis by simp
qed

lemma rr_step_decreases:
  assumes inv: "rr_inv ps0 s" and tq: "0 < tq" and body: "rr_body tq s = Continue s'"
  shows "(s', s) \<in> measures [\<lambda>s. remaining_work (procs s), rr_idle]"
proof -
  let ?s1 = "admit_arrivals s"
  from inv have ok: "rr_ok s" and len: "length (procs s) = length ps0"
    by (simp_all add: rr_inv_def)
  note a = rr_ok_admit [OF ok]
  show ?thesis
  proof (cases "ready_list ?s1 = []")
    case True
    then have e: "queue_list (ready_queue ?s1) = []" by (simp add: ready_list_def)
    have lt: "next_arrival_idx ?s1 < length (procs s)"
    proof (rule ccontr)
      assume "\<not> next_arrival_idx ?s1 < length (procs s)"
      from rr_body_break [OF e this, of tq] body show False by simp
    qed
    from rr_body_idle [OF e lt, of tq] body
    have s': "s' = ?s1\<lparr>current_time := arrival_time (procs s ! next_arrival_idx ?s1)\<rparr>" by simp
    have ok': "rr_ok s'" using a(5) by (simp add: s' rr_ok_def)
    have "has_arrived s'" using lt by (simp add: has_arrived_def s')
    then have "next_arrival_idx s' < next_arrival_idx (admit_arrivals s')"
      by (rule admit_arrivals_admits)
    with rr_ok_admit(3) [OF ok'] have "ready_list (admit_arrivals s') \<noteq> []"
      by (simp add: ready_list_def)
    with True have "rr_idle s' < rr_idle s" by (simp add: rr_idle_def)
    moreover have "procs s' = procs s" by (simp add: s')
    ultimately show ?thesis by simp
  next
    case False
    then have ne: "queue_list (ready_queue ?s1) \<noteq> []" by (simp add: ready_list_def)
    define idx where "idx = hd (ready_list ?s1)"
    define p2 where "p2 = run_slice tq (current_time s) (procs s ! idx)"
    note f = rr_dispatch_facts [OF inv False, folded idx_def]
    note ex = execution_time_bounds [OF tq f(2)]
    from rr_body_dispatch [OF ok ne, of tq] body
    have pr: "procs s' = (procs s)[idx := p2\<lparr>completion_time :=
          wrap_int (current_time s + execution_time tq (procs s ! idx))\<rparr>]
      \<or> procs s' = (procs s)[idx := p2]"
      unfolding ready_list_def idx_def p2_def by (auto split: if_splits)
    have "wrap_int (remaining_time (procs s ! idx) - execution_time tq (procs s ! idx))
        = remaining_time (procs s ! idx) - execution_time tq (procs s ! idx)"
      using ex f(3) by (intro wrap_int_nonneg) simp_all
    then have "remaining_time p2 < remaining_time (procs s ! idx)" using ex(1) by (simp add: p2_def)
    then have "remaining_work ((procs s)[idx := q]) < remaining_work (procs s)"
      if "remaining_time q = remaining_time p2" for q
      using that f(1,2) len by (simp add: remaining_work_update)
    with pr have "remaining_work (procs s') < remaining_work (procs s)" by auto
    then show ?thesis by simp
  qed
qed

lemma rr_terminates:
  assumes wf: "\<forall>p\<in>set ps0. well_formed p" and tq: "0 < tq" and fits: "queue_fits ps0"
  shows "\<exists>s. while_loop rr_running (rr_body tq) (rr_init ps0) = Some s"
proof (cases "ps0 = []")
  case True
  then show ?thesis by (simp add: while_loop_stop rr_running_def rr_init_def)
next
  case False
  show ?thesis
  proof (rule while_loop_terminates
      [where I = "rr_inv ps0" and r = "measures [\<lambda>s. remaining_work (procs s), rr_idle]"])
    show "wf (measures [\<lambda>s. remaining_work (procs s), rr_idle])" by simp
    show "rr_inv ps0 (rr_init ps0)" using False wf fits by (rule rr_inv_init)
  next
    fix s s'
    assume a: "rr_inv ps0 s" "rr_body tq s = Continue s'"
    from a(1) tq a(2) have "rr_inv ps0 s'" by (rule rr_inv_step)
    moreover from a(1) tq a(2)
    have "(s', s) \<in> measures [\<lambda>s. remaining_work (procs s), rr_idle]"
      by (rule rr_step_decreases)
    ultimately show "rr_inv ps0 s' \<and> (s', s) \<in> measures [\<lambda>s. remaining_work (procs s), rr_idle]"
      by blast
  qed
qed

text \<open>
  Total correctness of the schedulers on process sets whose values stay below \<open>INT_MAX\<close>
  (and, for round robin, whose queue capacity is an \<^verbatim>\<open>int\<close>): each returns, with every
  process completed.
\<close>

lemma schedulers_terminate:
  assumes "qsort_post srt ps" and "\<forall>p\<in>set ps. well_formed p" and "0 < time_quantum"
    and "\<forall>p\<in>set ps. below_int_max p"
  shows "\<exists>r. sjf_non_preemptive_schedule srt ps = Some r"
    and "\<exists>r. sjf_preemptive_schedule srt ps = Some r"
    and "queue_fits ps \<Longrightarrow> \<exists>r. rr_schedule srt ps time_quantum = Some r"
proof -
  from assms(1,2) have wf: "\<forall>p\<in>set (srt ps). well_formed p" by (rule qsort_post_well_formed)
  from assms(1,4) have rg: "\<forall>p\<in>set (srt ps). below_int_max p" by (simp add: qsort_post_set)
  from sjf_np_terminates [OF rg] show "\<exists>r. sjf_non_preemptive_schedule srt ps = Some r"
    by (auto simp: sjf_non_preemptive_schedule_def)
  from sjf_p_terminates [OF rg wf] show "\<exists>r. sjf_preemptive_schedule srt ps = Some r"
    by (auto simp: sjf_preemptive_schedule_def)
  assume "queue_fits ps"
  then have fits: "queue_fits (srt ps)"
    by (simp add: queue_fits_mset [OF qsort_post_mset [OF assms(1)]])
  from rr_terminates [OF wf assms(3) fits] show "\<exists>r. rr_schedule srt ps time_quantum = Some r"
    by (auto simp: rr_schedule_fits [of srt ps, OF fits])
qed

subsection \<open>A burst time of \<open>INT_MAX\<close>\<close>

lemma sjf_longest_job_search:
  "find_shortest burst_time [longest_job] [False] 0 = - 1"
  "find_shortest remaining_time [longest_job] [False] 0 = - 1"
  "find_next_arrival [longest_job] [False] = 0"
  by (simp_all add: find_shortest_def shortest_step_def find_next_arrival_def arrival_step_def
      longest_job_def new_process_def INT_MAX_def)

lemma sjf_longest_job_stuck:
  "sjf_running (sjf_init [longest_job])"
  "sjf_np_body (sjf_init [longest_job]) = Continue (sjf_init [longest_job])"
  "sjf_p_body (sjf_init [longest_job]) = Continue (sjf_init [longest_job])"
  by (simp_all add: sjf_running_def sjf_np_body_def sjf_p_body_def sjf_init_def
      sjf_longest_job_search)

text \<open>
  Claim C6 fails on the code. The process P1 with arrival 0 and burst time \<open>INT_MAX\<close> is
  well formed, but the searches of the two SJF functions start from \<open>INT_MAX\<close> and compare
  with \<open><\<close>: the process is never selected, every iteration sets the clock to its arrival
  time 0 again, and neither SJF function returns. \<open>fcfs_schedule\<close> completes the same
  process at time \<open>INT_MAX\<close>.
\<close>

theorem sjf_never_returns_on_longest_job:
  assumes "qsort_post srt [longest_job]"
  shows "well_formed longest_job
       \<and> sjf_non_preemptive_schedule srt [longest_job] = None
       \<and> sjf_preemptive_schedule srt [longest_job] = None
       \<and> map completion_time (snd (fcfs_schedule srt [longest_job])) = [INT_MAX]"
proof -
  have eq: "srt [longest_job] = [longest_job]" using assms by (rule qsort_post_single)
  have "while_loop sjf_running sjf_np_body (sjf_init [longest_job]) = None"
    by (rule while_loop_diverges [where I = "\<lambda>s. s = sjf_init [longest_job]"])
       (simp_all add: sjf_longest_job_stuck)
  moreover have "while_loop sjf_running sjf_p_body (sjf_init [longest_job]) = None"
    by (rule while_loop_diverges [where I = "\<lambda>s. s = sjf_init [longest_job]"])
       (simp_all add: sjf_longest_job_stuck)
  moreover have "well_formed longest_job"
    by (simp add: well_formed_def longest_job_def new_process_def INT_MAX_def)
  moreover have "map completion_time (snd (fcfs_schedule srt [longest_job])) = [INT_MAX]"
    by (simp add: fcfs_schedule_def eq snd_calculate_metrics)
       (simp add: Let_def longest_job_def new_process_def INT_MAX_def wrap_int_def)
  ultimately show ?thesis
    by (simp add: sjf_non_preemptive_schedule_def sjf_preemptive_schedule_def eq)
qed

theorem sjf_never_returns_on_longest_job_witness:
  "qsort_post (\<lambda>xs. xs) [longest_job]
   \<and> well_formed longest_job
   \<and> sjf_non_preemptive_schedule (\<lambda>xs. xs) [longest_job] = None
   \<and> sjf_preemptive_schedule (\<lambda>xs. xs) [longest_job] = None
   \<and> map completion_time (snd (fcfs_schedule (\<lambda>xs. xs) [longest_job])) = [INT_MAX]"
proof -
  have h: "qsort_post (\<lambda>xs. xs) [longest_job]"
    by (simp add: qsort_post_def)
  from sjf_never_returns_on_longest_job [OF h] h show ?thesis by simp
qed

subsection \<open>Round robin with the quantum zero\<close>







subsection \<open>The order of arrivals and the preempted process\<close>




subsection \<open>Round robin with a quantum no burst exceeds\<close>

lemma upt_append_upt: "i \<le> j \<Longrightarrow> j \<le> k \<Longrightarrow> [i..<j] @ [j..<k] = [i..<k]"
  using upt_add_eq_append [of i j "k - j"] by simp

lemma fcfs_clock_snoc:
  "fcfs_clock t (ps @ [p]) = wrap_int (max (fcfs_clock t ps) (arrival_time p) + burst_time p)"
  by (induction ps arbitrary: t) (simp_all add: max_def)

lemma fcfs_clock_Suc:
  "k < length ps \<Longrightarrow>
   fcfs_clock t (take (Suc k) ps) =
     wrap_int (max (fcfs_clock t (take k ps)) (arrival_time (ps ! k)) + burst_time (ps ! k))"
  by (simp add: take_Suc_conv_app_nth fcfs_clock_snoc)

lemma fcfs_loop_completion_nth:
  "k < length ps \<Longrightarrow> completion_time (fcfs_loop t ps ! k) = fcfs_clock t (take (Suc k) ps)"
proof (induction ps arbitrary: t k)
  case Nil
  then show ?case by simp
next
  case (Cons p ps)
  then show ?case by (cases k) (simp_all add: Let_def)
qed

lemma rr_as_fcfs_init:
  assumes "ps0 \<noteq> []" "\<forall>p\<in>set ps0. well_formed p" "queue_fits ps0"
  shows "rr_as_fcfs ps0 (rr_init ps0)"
proof -
  have "remaining_time (ps0 ! i) = burst_time (ps0 ! i)" if "i < length ps0" for i
    using assms(2) that by (simp add: well_formed_def)
  then show ?thesis
    using rr_init_ok [OF assms(1,3)] clock_inv_init [OF assms(2)]
    by (simp add: rr_as_fcfs_def) (simp add: rr_init_def)
qed


lemma rr_as_fcfs_step:
  assumes inv: "rr_as_fcfs ps0 s" and run: "rr_running s"
    and wf: "\<forall>p\<in>set ps0. well_formed p" and big: "\<forall>p\<in>set ps0. burst_time p \<le> tq"
    and lim: "clock_limit ps0 \<le> INT_MAX"
  shows "\<exists>s'. rr_body tq s = Continue s' \<and> rr_as_fcfs ps0 s'"
proof -
  let ?s1 = "admit_arrivals s"
  let ?n = "length ps0"
  let ?c = "completed s"
  let ?nx = "next_arrival_idx s" and ?nx1 = "next_arrival_idx ?s1"
  let ?T = "\<lambda>k. fcfs_clock 0 (take k ps0)"
  from inv have ok: "rr_ok s" and len: "length (procs s) = ?n"
    and st: "map static_fields (procs s) = map static_fields ps0"
    and cn: "?c \<le> ?nx" and rl: "ready_list s = [?c..<?nx]"
    and past: "\<And>i. i < ?c \<Longrightarrow> completion_time (procs s ! i) = ?T (Suc i)"
    and rest: "\<And>i. i < ?n \<Longrightarrow> ?c \<le> i \<Longrightarrow> remaining_time (procs s ! i) = burst_time (ps0 ! i)"
    and lo: "?T ?c \<le> current_time s"
    and hi: "?c < ?n \<Longrightarrow> current_time s \<le> max (?T ?c) (arrival_time (ps0 ! ?c))"
    and arr: "\<And>i. i < ?nx \<Longrightarrow> arrival_time (ps0 ! i) \<le> current_time s"
    and ci: "clock_inv ps0 (procs s) (current_time s)"
    unfolding rr_as_fcfs_def by blast+
  from run len have cltn: "?c < ?n" by (simp add: rr_running_def)
  have same: "arrival_time (procs s ! i) = arrival_time (ps0 ! i)"
    "burst_time (procs s ! i) = burst_time (ps0 ! i)" if "i < ?n" for i
    using static_fields_nth [OF st that] by simp_all
  note a = rr_ok_admit [OF ok]
  have mono: "?nx \<le> ?nx1" by (rule admit_arrivals_mono)
  have nx1: "?nx1 \<le> ?n" using a(4) len by simp
  have ql1: "ready_list ?s1 = [?c..<?nx1]"
    using a(3) cn mono by (simp add: ready_list_def [symmetric] rl upt_append_upt)
  have arr1: "arrival_time (ps0 ! i) \<le> current_time s" if "i < ?nx1" for i
  proof (cases "i < ?nx")
    case True
    then show ?thesis by (rule arr)
  next
    case False
    with that admit_arrivals_arrived [of s i] same(1) [of i] nx1 show ?thesis by simp
  qed
  show ?thesis
  proof (cases "ready_list ?s1 = []")
    case True
    then have e: "queue_list (ready_queue ?s1) = []" by (simp add: ready_list_def)
    from True ql1 have "?nx1 \<le> ?c" by auto
    with cn mono have eq: "?nx1 = ?c" "?nx = ?c" by linarith+
    with cltn len have lt: "?nx1 < length (procs s)" by simp
    let ?s' = "?s1\<lparr>current_time := arrival_time (procs s ! ?nx1)\<rparr>"
    have body: "rr_body tq s = Continue ?s'" using e lt by (rule rr_body_idle)
    have later: "current_time s < arrival_time (ps0 ! ?c)"
      using admit_arrivals_stops [OF lt] same(1) [OF cltn] by (simp add: eq)
    have ct': "current_time ?s' = arrival_time (ps0 ! ?c)"
      using same(1) [OF cltn] by (simp add: eq)
    have "rr_ok ?s'" using a(5) by (simp add: rr_ok_def)
    moreover have "ready_list ?s' = [?c..<?c]" using True by (simp add: ready_list_def)
    moreover have "arrival_time (ps0 ! i) \<le> arrival_time (ps0 ! ?c)" if "i < ?c" for i
      using arr [of i] that later eq by simp
    moreover have "clock_inv ps0 (procs ?s') (arrival_time (ps0 ! ?c))"
    proof -
      have "0 \<le> arrival_time (ps0 ! ?c)" using later ci by (simp add: clock_inv_def)
      moreover have "arrival_time (ps0 ! ?c) \<le> latest_arrival ps0"
        using cltn by (intro latest_arrival_ge) simp
      ultimately have "clock_inv ps0 (procs s) (arrival_time (ps0 ! ?c))"
        by (rule clock_inv_idle [OF ci])
      then show ?thesis by simp
    qed
    ultimately have "rr_as_fcfs ps0 ?s'"
      unfolding rr_as_fcfs_def ct'
      using len st past rest lo later eq by simp
    with body show ?thesis by blast
  next
    case False
    then have ne: "queue_list (ready_queue ?s1) \<noteq> []" by (simp add: ready_list_def)
    from False ql1 have c1: "?c < ?nx1" by simp
    then have hd: "hd (queue_list (ready_queue ?s1)) = ?c"
      using ql1 by (simp add: ready_list_def [symmetric] upt_conv_Cons)
    have tl: "tl (ready_list ?s1) = [Suc ?c..<?nx1]"
      using c1 by (simp add: ql1 upt_conv_Cons)
    let ?p = "procs s ! ?c"
    have rem: "remaining_time ?p = burst_time (ps0 ! ?c)" using cltn by (simp add: rest)
    have "ps0 ! ?c \<in> set ps0" using cltn by simp
    with wf big have b: "0 < burst_time (ps0 ! ?c)" "burst_time (ps0 ! ?c) \<le> tq"
      by (simp_all add: well_formed_def)
    then have ex: "execution_time tq ?p = burst_time (ps0 ! ?c)"
      by (simp add: execution_time_def rem)
    define t' where "t' = wrap_int (current_time s + burst_time (ps0 ! ?c))"
    define p2 where "p2 = run_slice tq (current_time s) ?p"
    have rem2: "remaining_time p2 = 0" by (simp add: p2_def ex rem wrap_int_def)
    have now: "current_time s = max (?T ?c) (arrival_time (ps0 ! ?c))"
      using lo hi [OF cltn] arr1 [OF c1] by simp
    then have t'T: "t' = ?T (Suc ?c)"
      using cltn by (simp add: t'_def fcfs_clock_Suc)
    have fits: "burst_time (ps0 ! ?c) \<le> remaining_time ?p" by (simp only: rem)
    have no: "t' = current_time s + burst_time (ps0 ! ?c)"
      unfolding t'_def using ci lim _ _ fits
      by (rule clock_no_overflow) (use cltn len b in simp_all)
    from rr_body_dispatch [OF ok ne, of tq] rem2
    obtain s' where s': "rr_body tq s = Continue s'" "current_time s' = t'" "rr_ok s'"
      "length (procs s') = length (procs s)" "?nx1 \<le> next_arrival_idx s'"
      "\<And>i. ?nx1 \<le> i \<Longrightarrow> i < next_arrival_idx s' \<Longrightarrow> arrival_time (procs s ! i) \<le> t'"
      "procs s' = (procs s)[?c := p2\<lparr>completion_time := t'\<rparr>]"
      "completed s' = ?c + 1"
      "ready_list s' = tl (ready_list ?s1) @ [?nx1..<next_arrival_idx s']"
      unfolding ready_list_def hd p2_def t'_def ex by auto
    let ?nx' = "next_arrival_idx s'"
    have nx': "?nx' \<le> ?n" using s'(3,4) len by (simp add: rr_ok_def)
    have rl': "ready_list s' = [Suc ?c..<?nx']"
      using c1 s'(5) by (simp add: s'(9) tl upt_append_upt)
    have static': "map static_fields (procs s') = map static_fields ps0"
      unfolding s'(7) using st
      by (rule static_fields_update) (simp_all add: len cltn p2_def run_slice_def static_fields_def)
    have at: "procs s' ! ?c = p2\<lparr>completion_time := t'\<rparr>" using cltn len by (simp add: s'(7))
    have other: "procs s' ! i = procs s ! i" if "i \<noteq> ?c" for i using that by (simp add: s'(7))
    have ci': "clock_inv ps0 (procs s') (current_time s')"
    proof -
      have "clock_inv ps0 ((procs s)[?c := p2\<lparr>completion_time := t'\<rparr>])
          (current_time s + burst_time (ps0 ! ?c))"
        using ci _ _ fits by (rule clock_inv_slice)
          (use cltn len rem b rem2 arr1 [OF c1] same(1) [OF cltn] no in \<open>simp_all add: p2_def\<close>)
      then show ?thesis by (simp add: s'(2,7) no)
    qed
    have "rr_as_fcfs ps0 s'"
      unfolding rr_as_fcfs_def
    proof (intro conjI allI impI)
      show "clock_inv ps0 (procs s') (current_time s')" by (rule ci')
      show "rr_ok s'" by (rule s'(3))
      show "length (procs s') = ?n" using s'(4) len by simp
      show "map static_fields (procs s') = map static_fields ps0" by (rule static')
      show "completed s' \<le> ?nx'" using c1 s'(5,8) by simp
      show "ready_list s' = [completed s'..<?nx']" using rl' s'(8) by simp
      show "completion_time (procs s' ! i) = ?T (Suc i)" if "i < completed s'" for i
      proof (cases "i = ?c")
        case True
        with at t'T show ?thesis by simp
      next
        case False
        with that s'(8) have "i < ?c" by simp
        with past [of i] other [OF False] show ?thesis by simp
      qed
      show "remaining_time (procs s' ! i) = burst_time (ps0 ! i)"
        if "i < ?n" "completed s' \<le> i" for i
        using that rest [of i] other [of i] s'(8) by simp
      show "?T (completed s') \<le> current_time s'" using t'T s'(2,8) by simp
      show "current_time s' \<le> max (?T (completed s')) (arrival_time (ps0 ! completed s'))"
        using t'T s'(2,8) by simp
      show "arrival_time (ps0 ! i) \<le> current_time s'" if "i < ?nx'" for i
      proof (cases "i < ?nx1")
        case True
        with arr1 [of i] b(1) show ?thesis by (simp add: s'(2) no)
      next
        case False
        with that s'(6) [of i] same(1) [of i] nx' show ?thesis by (simp add: s'(2))
      qed
    qed
    with s'(1) show ?thesis by blast
  qed
qed


lemma rr_as_fcfs_final:
  assumes loop: "while_loop rr_running (rr_body tq) (rr_init ps0) = Some s"
    and ne: "ps0 \<noteq> []"
    and wf: "\<forall>p\<in>set ps0. well_formed p" and big: "\<forall>p\<in>set ps0. burst_time p \<le> tq"
    and lim: "clock_limit ps0 \<le> INT_MAX" and fits: "queue_fits ps0"
  shows "rr_as_fcfs ps0 s \<and> completed s = length ps0"
proof (rule while_loop_rule [OF loop, where I = "rr_as_fcfs ps0"])
  show "rr_as_fcfs ps0 (rr_init ps0)" using ne wf fits by (rule rr_as_fcfs_init)
next
  fix s s' assume "rr_as_fcfs ps0 s" "rr_running s" "rr_body tq s = Continue s'"
  with rr_as_fcfs_step [OF _ _ wf big lim, of s] show "rr_as_fcfs ps0 s'" by auto
next
  fix s s' assume "rr_as_fcfs ps0 s" "rr_running s" "rr_body tq s = Break s'"
  with rr_as_fcfs_step [OF _ _ wf big lim, of s]
  show "rr_as_fcfs ps0 s' \<and> completed s' = length ps0" by auto
next
  fix s assume inv: "rr_as_fcfs ps0 s" and stop: "\<not> rr_running s"
  from inv have "completed s \<le> next_arrival_idx s" "next_arrival_idx s \<le> length (procs s)"
    "length (procs s) = length ps0"
    by (simp_all add: rr_as_fcfs_def rr_ok_def)
  with stop have "completed s = length ps0" unfolding rr_running_def by linarith
  with inv show "rr_as_fcfs ps0 s \<and> completed s = length ps0" by simp
qed

lemma rr_large_quantum_sorted:
  assumes wf: "\<forall>p\<in>set ps0. well_formed p" and big: "\<forall>p\<in>set ps0. burst_time p \<le> tq"
    and lim: "clock_limit ps0 \<le> INT_MAX" and fits: "queue_fits ps0"
  shows "\<exists>s. while_loop rr_running (rr_body tq) (rr_init ps0) = Some s
           \<and> map static_fields (procs s) = map static_fields (fcfs_loop 0 ps0)
           \<and> map completion_time (procs s) = map completion_time (fcfs_loop 0 ps0)"
proof (cases "ps0 = []")
  case True
  then show ?thesis by (simp add: while_loop_stop rr_running_def rr_init_def)
next
  case False
  then obtain p where "p \<in> set ps0" by (cases ps0) auto
  with wf big have tq: "0 < tq" by (fastforce simp: well_formed_def)
  from rr_terminates [OF wf tq fits] obtain s
    where loop: "while_loop rr_running (rr_body tq) (rr_init ps0) = Some s" by blast
  from rr_as_fcfs_final [OF loop False wf big lim fits]
  have inv: "rr_as_fcfs ps0 s" and all: "completed s = length ps0" by simp_all
  from inv have len: "length (procs s) = length ps0"
    and st: "map static_fields (procs s) = map static_fields ps0"
    and past: "\<And>i. i < completed s \<Longrightarrow> completion_time (procs s ! i) = fcfs_clock 0 (take (Suc i) ps0)"
    unfolding rr_as_fcfs_def by blast+
  have "map completion_time (procs s) = map completion_time (fcfs_loop 0 ps0)"
    by (rule nth_equalityI) (simp_all add: len past all fcfs_loop_completion_nth)
  with loop st show ?thesis by (simp add: static_fcfs_loop)
qed

text \<open>
  Claim C7 as stated fails: when the clock overflows, the two schedulers part. On the
  well-formed processes P1(arrival 0, burst 2000000000), P2(1, 2000000000), P3(2, 5) and
  the quantum 2000000000, the clock of both wraps around to \<open>-294967296\<close> when P2 ends;
  \<open>fcfs_schedule\<close> then moves it forward to the arrival of P3 and completes P3 at 7, while
  \<open>rr_schedule\<close>, whose queue already holds P3, completes it at \<open>-294967291\<close>.
\<close>

theorem rr_large_quantum_overflow_counterexample:
  "list_all well_formed
     [new_process ''P1'' 0 2000000000 1, new_process ''P2'' 1 2000000000 1,
      new_process ''P3'' 2 5 1]
   \<and> list_all (\<lambda>p. burst_time p \<le> 2000000000)
     [new_process ''P1'' 0 2000000000 1, new_process ''P2'' 1 2000000000 1,
      new_process ''P3'' 2 5 1]
   \<and> map (\<lambda>p. (id' p, completion_time p))
       (snd (fcfs_schedule (\<lambda>xs. xs)
          [new_process ''P1'' 0 2000000000 1, new_process ''P2'' 1 2000000000 1,
           new_process ''P3'' 2 5 1]))
     = [(''P1'', 2000000000), (''P2'', - 294967296), (''P3'', 7)]
   \<and> map_option (map (\<lambda>p. (id' p, completion_time p)) \<circ> snd)
       (rr_schedule (\<lambda>xs. xs)
          [new_process ''P1'' 0 2000000000 1, new_process ''P2'' 1 2000000000 1,
           new_process ''P3'' 2 5 1] 2000000000)
     = Some [(''P1'', 2000000000), (''P2'', - 294967296), (''P3'', - 294967291)]"
  by code_simp

text \<open>
  The two schedulers also part, without any overflow, on a process set that is not well
  formed: with a negative burst time the clock of \<open>rr_schedule\<close> runs backwards, and
  \<open>fcfs_schedule\<close> moves it forward again to the next arrival.
\<close>

lemma rr_large_quantum_negative_burst:
  "map completion_time
       (snd (fcfs_schedule (\<lambda>xs. xs) [new_process ''P1'' 0 (- 3) 1, new_process ''P2'' 0 1 1]))
     = [- 3, 1]
   \<and> map_option (map completion_time \<circ> snd)
       (rr_schedule (\<lambda>xs. xs) [new_process ''P1'' 0 (- 3) 1, new_process ''P2'' 0 1 1] 1)
     = Some [- 3, - 2]"
  by code_simp

text \<open>
  Claim C7, amended. For a well-formed process set (arrival times not negative, positive
  bursts, the countdown still at the burst) whose latest arrival time plus the sum of all
  burst times is at most \<open>INT_MAX\<close> and whose queue capacity \<^verbatim>\<open>n * 100\<close> is an \<^verbatim>\<open>int\<close>, and a
  quantum that no burst time exceeds,
  \<open>rr_schedule\<close> returns, and its array holds the same processes at the same places with
  the same completion times as the array of \<open>fcfs_schedule\<close> run on the same input.
\<close>

theorem rr_large_quantum_equals_fcfs:
  assumes "qsort_post srt ps" and "\<forall>p\<in>set ps. well_formed p"
    and "clock_limit ps \<le> INT_MAX" and "queue_fits ps"
    and "\<forall>p\<in>set ps. burst_time p \<le> time_quantum"
  shows "\<exists>r. rr_schedule srt ps time_quantum = Some r
           \<and> map (\<lambda>p. (static_fields p, completion_time p)) (snd r) =
               map (\<lambda>p. (static_fields p, completion_time p)) (snd (fcfs_schedule srt ps))"
proof -
  from assms(1,2) have wf: "\<forall>p\<in>set (srt ps). well_formed p" by (rule qsort_post_well_formed)
  from assms(1,5) have big: "\<forall>p\<in>set (srt ps). burst_time p \<le> time_quantum"
    by (simp add: qsort_post_set)
  from assms(1,4) have fits: "queue_fits (srt ps)"
    by (simp add: queue_fits_mset [OF qsort_post_mset])
  from assms(1,3) have lim: "clock_limit (srt ps) \<le> INT_MAX"
    using clock_limit_mset [OF qsort_post_mset [OF assms(1)]] by simp
  from rr_large_quantum_sorted [OF wf big lim fits] obtain s
    where s: "while_loop rr_running (rr_body time_quantum) (rr_init (srt ps)) = Some s"
      "map static_fields (procs s) = map static_fields (fcfs_loop 0 (srt ps))"
      "map completion_time (procs s) = map completion_time (fcfs_loop 0 (srt ps))"
    by blast
  have pair: "map (\<lambda>p. (static_fields p, completion_time p)) (map set_derived_times xs)
      = zip (map static_fields xs) (map completion_time xs)" for xs
    by (induction xs) simp_all
  have "rr_schedule srt ps time_quantum = Some (calculate_metrics (procs s))"
    using s(1) by (simp add: rr_schedule_fits [of srt ps, OF fits])
  moreover have "map (\<lambda>p. (static_fields p, completion_time p)) (snd (calculate_metrics (procs s)))
      = map (\<lambda>p. (static_fields p, completion_time p)) (snd (fcfs_schedule srt ps))"
    by (simp only: snd_calculate_metrics fcfs_schedule_def pair s(2,3))
  ultimately show ?thesis by blast
qed

lemma rr_quantum8_scenario:
  "map_option (map (\<lambda>p. (static_fields p, completion_time p)) \<circ> snd)
     (rr_schedule (\<lambda>xs. xs) scenario 8)
   = Some [((''P1'', 0, 5, 1), 5), ((''P2'', 1, 3, 1), 8), ((''P3'', 2, 8, 1), 16)]"
  by code_simp

lemma fcfs_static_completion_scenario:
  "map (\<lambda>p. (static_fields p, completion_time p)) (snd (fcfs_schedule (\<lambda>xs. xs) scenario))
   = [((''P1'', 0, 5, 1), 5), ((''P2'', 1, 3, 1), 8), ((''P3'', 2, 8, 1), 16)]"
  by code_simp

theorem rr_large_quantum_equals_fcfs_witness:
  "qsort_post (\<lambda>xs. xs) scenario \<and> list_all well_formed scenario
   \<and> clock_limit scenario \<le> INT_MAX \<and> queue_fits scenario
   \<and> list_all (\<lambda>p. burst_time p \<le> 8) scenario
   \<and> map_option (map (\<lambda>p. (static_fields p, completion_time p)) \<circ> snd)
        (rr_schedule (\<lambda>xs. xs) scenario 8)
      = Some [((''P1'', 0, 5, 1), 5), ((''P2'', 1, 3, 1), 8), ((''P3'', 2, 8, 1), 16)]
   \<and> map (\<lambda>p. (static_fields p, completion_time p)) (snd (fcfs_schedule (\<lambda>xs. xs) scenario))
      = [((''P1'', 0, 5, 1), 5), ((''P2'', 1, 3, 1), 8), ((''P3'', 2, 8, 1), 16)]"
proof -
  have big: "\<forall>p\<in>set scenario. burst_time p \<le> 8"
    by (simp add: scenario_def new_process_def)
  note inst = rr_large_quantum_equals_fcfs
    [OF qsort_post_scenario_id well_formed_scenario clock_limit_scenario queue_fits_scenario big]
  have wfl: "list_all well_formed scenario" using well_formed_scenario by (simp add: list_all_iff)
  have bigl: "list_all (\<lambda>p. burst_time p \<le> 8) scenario" using big by (simp add: list_all_iff)
  from inst qsort_post_scenario_id wfl clock_limit_scenario queue_fits_scenario bigl
    rr_quantum8_scenario
    fcfs_static_completion_scenario
  show ?thesis by (intro conjI) assumption+
qed

end
